theory Spec2Isabelle
  imports Main
begin

section \<open>The upload worker of the SFTP batch uploader\<close>

text \<open>
  The development embeds \<^verbatim>\<open>UploadWorker\<close> of \<^verbatim>\<open>sftp_gui.py\<close>: the second-by-second
  wait \<^verbatim>\<open>_sleep\<close>, the method \<^verbatim>\<open>run\<close> with its start delay, connect stage, per-file
  loop and teardown, and the two ways the GUI reaches into a running worker
  (\<^verbatim>\<open>App._stop\<close> and \<^verbatim>\<open>App._ask_continue\<close>).

  The worker runs in a thread of its own. What it shares with the GUI thread is the stop
  flag and the reply queue (both written by the GUI) and the log and confirm queues
  (written by the worker). The model makes the run a function of
  \<^item> the configuration and the file list,
  \<^item> an environment that answers the calls to the file system and to paramiko, and
  \<^item> a script of the GUI's requests, cut into batches: the worker takes the next batch
    at every point where it looks at the shared state or lets a second pass.
\<close>

subsection \<open>Configuration\<close>

text \<open>
  The \<^verbatim>\<open>cfg\<close> dictionary built by \<^verbatim>\<open>App._get_cfg\<close>. The fields \<^verbatim>\<open>delay\<close>, \<^verbatim>\<open>test_n\<close> and
  \<^verbatim>\<open>start_delay_min\<close> hold the text of a Spinbox, which the user can edit freely. The
  worker does one thing with such a text: it passes it to \<^verbatim>\<open>int\<close>. A field is therefore
  kept as the outcome of that call: \<open>Some n\<close> when \<^verbatim>\<open>int\<close> returns \<open>n\<close> (any integer,
  negative ones included), \<open>None\<close> when it raises \<^verbatim>\<open>ValueError\<close>, as it does on \<^verbatim>\<open>"1.5"\<close>
  or \<^verbatim>\<open>"abc"\<close>. Credentials play no part in the control flow and are left to the
  environment's answer to \<^verbatim>\<open>_connect\<close>, and so is \<^verbatim>\<open>int(cfg["port"])\<close>, which is evaluated
  inside \<^verbatim>\<open>_connect\<close>.
\<close>

record cfg =
  host :: string
  port :: string
  remote_dir :: string
  use_delay :: bool
  delay :: "int option"
  use_test :: bool
  test_n :: "int option"
  start_delay_min :: "int option"

subsection \<open>Events\<close>

text \<open>
  Log lines. The source formats them as text with pictographs; here each line is a
  constructor that carries the values the text interpolates.
\<close>

datatype msg =
    Scheduled int
  | StoppedInitialDelay
  | Connecting string string
  | Connected
  | ConnectionFailed
  | StoppedByUser
  | Skip nat nat string
  | ConnectionLost
  | Reconnected
  | ReconnectFailed
  | Uploading nat nat string string
  | UploadDone nat nat
  | UploadError nat nat
  | TestBatchDone int
  | StoppedAfterTest
  | Continuing
  | ReconnectingAfterDelay

text \<open>
  The text of a timer event: a countdown line with prefix, minutes, seconds and the
  optional bracketed suffix, or the empty string that clears the label.
\<close>

datatype timer_text = Countdown string int int "int option" | Cleared

text \<open>
  What the worker does, in program order: the items it puts on \<^verbatim>\<open>log_q\<close>
  (\<open>Log\<close>, \<open>Timer\<close>, \<open>Done\<close>) and on \<^verbatim>\<open>confirm_q\<close> (\<open>Confirm\<close>), and its calls to the
  outside: the one-second wait, \<^verbatim>\<open>_connect\<close>, \<^verbatim>\<open>sftp.normalize\<close>, \<^verbatim>\<open>os.path.exists\<close>,
  \<^verbatim>\<open>transport.is_active\<close>, \<^verbatim>\<open>sftp.put\<close> and the two \<^verbatim>\<open>close\<close> calls.
\<close>

datatype event =
    Log msg
  | Timer timer_text
  | Done bool
  | Confirm
  | Wait1
  | ConnectCall
  | NormalizeCall
  | ExistsCall string
  | IsActiveCall
  | PutCall string string
  | CloseSftp
  | CloseTransport

subsection \<open>The GUI's requests and the shared state\<close>

text \<open>
  \<open>Stop\<close> is \<^verbatim>\<open>App._stop\<close>: it sets the worker's stop flag and puts \<^verbatim>\<open>False\<close> on the
  reply queue. \<open>Answer b\<close> is \<^verbatim>\<open>App._ask_continue\<close> putting the user's answer there.
\<close>

datatype action = Stop | Answer bool

record wstate =
  stop_flag :: bool
  reply_q :: "bool list"
  pending :: "action list list"
  out :: "event list"

text \<open>\<^verbatim>\<open>UploadWorker.stop\<close>: \<^verbatim>\<open>self._stop.set()\<close>.\<close>

definition stop :: "wstate \<Rightarrow> wstate" where
  "stop s = s\<lparr>stop_flag := True\<rparr>"

text \<open>\<^verbatim>\<open>queue.Queue.put\<close> on the unbounded reply queue.\<close>

definition reply_put :: "bool \<Rightarrow> wstate \<Rightarrow> wstate" where
  "reply_put b s = s\<lparr>reply_q := reply_q s @ [b]\<rparr>"

text \<open>\<^verbatim>\<open>App._stop\<close> on a running worker, and \<^verbatim>\<open>App._ask_continue\<close>.\<close>

fun apply_action :: "wstate \<Rightarrow> action \<Rightarrow> wstate" where
  "apply_action s Stop = reply_put False (stop s)"
| "apply_action s (Answer b) = reply_put b s"

text \<open>
  The worker reaches a point where the GUI's requests since the last such point take
  effect: the next batch of the script is applied, in order. Past the end of the script
  the GUI does nothing more.
\<close>

definition absorb :: "wstate \<Rightarrow> wstate" where
  "absorb s =
     (case pending s of
        [] \<Rightarrow> s
      | b # bs \<Rightarrow> foldl apply_action (s\<lparr>pending := bs\<rparr>) b)"

definition emit :: "event \<Rightarrow> wstate \<Rightarrow> wstate" where
  "emit e s = s\<lparr>out := out s @ [e]\<rparr>"

text \<open>A fresh worker: flag clear, fresh empty queues (\<^verbatim>\<open>App._start\<close>).\<close>

definition init :: "action list list \<Rightarrow> wstate" where
  "init script = \<lparr>stop_flag = False, reply_q = [], pending = script, out = []\<rparr>"

subsection \<open>The environment\<close>

text \<open>
  The answers of the outside world. Each call is made at most once per loop index, so
  an answer per index is as general as an answer per call.
\<close>

record env =
  connect_ok :: bool
  home_ok :: bool
  file_exists :: "nat \<Rightarrow> bool"
  active_before :: "nat \<Rightarrow> bool"
  reconnect_ok :: "nat \<Rightarrow> bool"
  put_ok :: "nat \<Rightarrow> bool"
  active_after :: "nat \<Rightarrow> bool"
  reconnect_after_ok :: "nat \<Rightarrow> bool"

subsection \<open>\<^verbatim>\<open>_sleep\<close>\<close>

text \<open>
  \<^verbatim>\<open>for elapsed in range(seconds)\<close>: the recursion runs on
  \<^verbatim>\<open>remaining = seconds - elapsed\<close>. Each round polls the flag, sends the tick when the
  prefix is not empty, and waits a second. The result is paired with the new state.
\<close>

fun sleep_loop :: "string \<Rightarrow> int \<Rightarrow> nat \<Rightarrow> wstate \<Rightarrow> bool \<times> wstate" where
  "sleep_loop timer_prefix tot 0 s =
     (True, if timer_prefix \<noteq> [] then emit (Timer Cleared) s else s)"
| "sleep_loop timer_prefix tot (Suc n) s =
     (let s1 = absorb s in
      if stop_flag s1 then (False, s1)
      else
        let remaining = int (Suc n);
            s2 = (if timer_prefix \<noteq> []
                  then emit (Timer (Countdown timer_prefix (remaining div 60) (remaining mod 60)
                                     (if tot \<noteq> 0 then Some tot else None))) s1
                  else s1);
            s3 = emit Wait1 (absorb s2)
        in sleep_loop timer_prefix tot n s3)"

definition sleep :: "int \<Rightarrow> string \<Rightarrow> int \<Rightarrow> wstate \<Rightarrow> bool \<times> wstate" where
  "sleep seconds timer_prefix tot s = sleep_loop timer_prefix tot (nat seconds) s"

subsection \<open>\<^verbatim>\<open>run\<close>\<close>

text \<open>
  Lines 81 to 90, once \<^verbatim>\<open>int(cfg.get("start_delay_min", 0))\<close> has returned \<open>m\<close>. The
  result says whether the run goes on to the connect stage.
\<close>

definition initial_delay :: "int \<Rightarrow> wstate \<Rightarrow> bool \<times> wstate" where
  "initial_delay m s =
     (let start_delay = m * 60 in
      if start_delay > 0 then
        (let s1 = emit (Log (Scheduled m)) s in
         case sleep start_delay ''Starting in'' 0 s1 of
           (False, s2) \<Rightarrow> (False, emit (Done False) (emit (Log StoppedInitialDelay) s2))
         | (True, s2) \<Rightarrow> (True, emit (Timer Cleared) s2))
      else (True, s))"

text \<open>Lines 93 to 101: \<^verbatim>\<open>_connect\<close> and \<^verbatim>\<open>sftp.normalize\<close> under one \<^verbatim>\<open>try\<close>.\<close>

definition connect_stage :: "cfg \<Rightarrow> env \<Rightarrow> wstate \<Rightarrow> bool \<times> wstate" where
  "connect_stage c e s =
     (let s1 = emit ConnectCall (emit (Log (Connecting (host c) (port c))) s) in
      if \<not> connect_ok e then (False, emit (Done False) (emit (Log ConnectionFailed) s1))
      else
        let s2 = emit NormalizeCall s1 in
        if \<not> home_ok e then (False, emit (Done False) (emit (Log ConnectionFailed) s2))
        else (True, emit (Log Connected) s2))"

text \<open>
  Lines 103 to 107, between the two \<^verbatim>\<open>try\<close> blocks. First
  \<^verbatim>\<open>cfg["remote_dir"].rstrip("/")\<close>; with it \<^verbatim>\<open>os.path.basename\<close>, used in the loop, as
  \<^verbatim>\<open>posixpath\<close> has it: what follows the last slash. (On Windows it also splits at a
  backslash and at the colon of a drive, which changes the text of log lines and of the
  remote path and nothing else.)
\<close>

definition rstrip_slash :: "string \<Rightarrow> string" where
  "rstrip_slash p = rev (dropWhile (\<lambda>ch. ch = CHR ''/'') (rev p))"

definition basename :: "string \<Rightarrow> string" where
  "basename p = rev (takeWhile (\<lambda>ch. ch \<noteq> CHR ''/'') (rev p))"

text \<open>
  Then \<^verbatim>\<open>int(cfg["delay"]) if cfg["use_delay"] else 0\<close> and
  \<^verbatim>\<open>int(cfg["test_n"]) if cfg["use_test"] else 0\<close>: a field that is not in use is not
  passed to \<^verbatim>\<open>int\<close>, and \<open>None\<close> stands for the \<^verbatim>\<open>ValueError\<close>.
\<close>

definition get_delay :: "cfg \<Rightarrow> int option" where
  "get_delay c = (if use_delay c then delay c else Some 0)"

definition get_test_count :: "cfg \<Rightarrow> int option" where
  "get_test_count c = (if use_test c then test_n c else Some 0)"

definition RECONNECT_THRESH :: int where
  "RECONNECT_THRESH = 55"

text \<open>How a stage of the loop body leaves: on to the next statement, by \<^verbatim>\<open>break\<close>, or
  never (\<^verbatim>\<open>reply_q.get()\<close> on a queue that stays empty).\<close>

datatype ctl = Next | Break | Block

text \<open>Lines 115 to 136: the existence test, the liveness check and the upload.\<close>

definition upload_file :: "env \<Rightarrow> string \<Rightarrow> nat \<Rightarrow> nat \<Rightarrow> string \<Rightarrow> wstate \<Rightarrow> ctl \<times> wstate" where
  "upload_file e rdir tot idx fpath s =
     (let fname = basename fpath;
          remote_path = (if rdir \<noteq> [] then rdir @ ''/'' @ fname else fname);
          s1 = emit (ExistsCall fpath) s
      in
      if \<not> file_exists e idx then (Next, emit (Log (Skip idx tot fname)) s1)
      else
        let s2 = emit IsActiveCall s1;
            (ok, s3) =
              (if \<not> active_before e idx then
                 (let s3 = emit ConnectCall (emit (Log ConnectionLost) s2) in
                  if reconnect_ok e idx then (True, emit (Log Reconnected) s3)
                  else (False, emit (Log ReconnectFailed) s3))
               else (True, s2))
        in
        if \<not> ok then (Break, s3)
        else
          let s4 = emit (PutCall fpath remote_path)
                     (emit (Log (Uploading idx tot fname remote_path)) s3)
          in (Next, emit (Log (if put_ok e idx then UploadDone idx tot
                               else UploadError idx tot)) s4))"

text \<open>Lines 139 to 146: the test-batch pause.\<close>

definition checkpoint :: "int \<Rightarrow> nat \<Rightarrow> wstate \<Rightarrow> ctl \<times> wstate" where
  "checkpoint test_count idx s =
     (if test_count \<noteq> 0 \<and> int idx = test_count then
        (let s1 = emit Confirm (emit (Log (TestBatchDone test_count)) s);
             s2 = absorb s1
         in case reply_q s2 of
              [] \<Rightarrow> (Block, s2)
            | answer # q \<Rightarrow>
                (let s3 = s2\<lparr>reply_q := q\<rparr> in
                 if \<not> answer then (Break, emit (Log StoppedAfterTest) s3)
                 else (Next, emit (Log Continuing) s3)))
      else (Next, s))"

text \<open>Lines 149 to 161: the inter-file delay and the reconnect after a long one.\<close>

definition inter_file_delay :: "env \<Rightarrow> int \<Rightarrow> nat \<Rightarrow> nat \<Rightarrow> wstate \<Rightarrow> ctl \<times> wstate" where
  "inter_file_delay e dly tot idx s =
     (if dly \<noteq> 0 \<and> idx < tot then
        (let s1 = absorb s in
         if stop_flag s1 then (Next, s1)
         else
           case sleep dly ''Next upload in'' (int idx + 1) s1 of
             (False, s2) \<Rightarrow> (Break, s2)
           | (True, s2) \<Rightarrow>
               (let s3 = emit (Timer Cleared) s2 in
                if dly \<ge> RECONNECT_THRESH then
                  (let s4 = emit IsActiveCall s3 in
                   if \<not> active_after e idx then
                     (let s5 = emit ConnectCall (emit (Log ReconnectingAfterDelay) s4) in
                      if reconnect_after_ok e idx then (Next, emit (Log Reconnected) s5)
                      else (Break, emit (Log ReconnectFailed) s5))
                   else (Next, s4))
                else (Next, s3)))
      else (Next, s))"

text \<open>One round of the \<^verbatim>\<open>for\<close> loop.\<close>

definition iteration ::
  "env \<Rightarrow> string \<Rightarrow> int \<Rightarrow> int \<Rightarrow> nat \<Rightarrow> nat \<Rightarrow> string \<Rightarrow> wstate \<Rightarrow> ctl \<times> wstate" where
  "iteration e rdir dly test_count tot idx fpath s =
     (let s1 = absorb s in
      if stop_flag s1 then (Break, emit (Log StoppedByUser) s1)
      else
        case upload_file e rdir tot idx fpath s1 of
          (Next, s2) \<Rightarrow>
            (case checkpoint test_count idx s2 of
               (Next, s3) \<Rightarrow> inter_file_delay e dly tot idx s3
             | r \<Rightarrow> r)
        | r \<Rightarrow> r)"

text \<open>\<^verbatim>\<open>for idx, fpath in enumerate(files, 1)\<close>.\<close>

fun upload_loop ::
  "env \<Rightarrow> string \<Rightarrow> int \<Rightarrow> int \<Rightarrow> nat \<Rightarrow> nat \<Rightarrow> string list \<Rightarrow> wstate \<Rightarrow> ctl \<times> wstate" where
  "upload_loop e rdir dly test_count tot idx [] s = (Next, s)"
| "upload_loop e rdir dly test_count tot idx (fpath # rest) s =
     (case iteration e rdir dly test_count tot idx fpath s of
        (Next, s1) \<Rightarrow> upload_loop e rdir dly test_count tot (Suc idx) rest s1
      | r \<Rightarrow> r)"

text \<open>The \<^verbatim>\<open>finally\<close> block.\<close>

definition teardown :: "wstate \<Rightarrow> wstate" where
  "teardown s = emit (Done True) (emit CloseTransport (emit CloseSftp s))"

text \<open>
  How \<^verbatim>\<open>run\<close> ends: it returns, it waits for ever on the reply queue, or it is left by a
  \<^verbatim>\<open>ValueError\<close> that nothing catches, which ends the worker's thread.
\<close>

datatype status = Returns | Blocks | Raises

text \<open>
  The three calls of \<^verbatim>\<open>int\<close> on a field of the dictionary stand outside every \<^verbatim>\<open>try\<close>:
  the first at the top of \<^verbatim>\<open>run\<close>, the other two after the connect stage and before the
  \<^verbatim>\<open>try\<close> whose \<^verbatim>\<open>finally\<close> is the teardown. When one of them raises, \<^verbatim>\<open>run\<close> is left at
  once, with the state as it is.
\<close>

definition run :: "cfg \<Rightarrow> string list \<Rightarrow> env \<Rightarrow> wstate \<Rightarrow> status \<times> wstate" where
  "run c files e s =
     (case start_delay_min c of
        None \<Rightarrow> (Raises, s)
      | Some m \<Rightarrow>
          (case initial_delay m s of
             (False, s1) \<Rightarrow> (Returns, s1)
           | (True, s1) \<Rightarrow>
               (case connect_stage c e s1 of
                  (False, s2) \<Rightarrow> (Returns, s2)
                | (True, s2) \<Rightarrow>
                    (let rdir = rstrip_slash (remote_dir c) in
                     case get_delay c of
                       None \<Rightarrow> (Raises, s2)
                     | Some dly \<Rightarrow>
                         (case get_test_count c of
                            None \<Rightarrow> (Raises, s2)
                          | Some test_count \<Rightarrow>
                              (let tot = length files in
                               case upload_loop e rdir dly test_count tot 1 files s2 of
                                 (Block, s3) \<Rightarrow> (Blocks, s3)
                               | (_, s3) \<Rightarrow> (Returns, teardown s3)))))))"

subsection \<open>Classes of events\<close>

text \<open>The events of \<^verbatim>\<open>_sleep\<close>: timer items and one-second waits.\<close>

fun waiting_event :: "event \<Rightarrow> bool" where
  "waiting_event (Timer t) = True"
| "waiting_event Wait1 = True"
| "waiting_event ev = False"

text \<open>The events before the connect stage: the schedule line and those of the wait.\<close>

fun start_event :: "event \<Rightarrow> bool" where
  "start_event (Log (Scheduled m)) = True"
| "start_event (Timer t) = True"
| "start_event Wait1 = True"
| "start_event ev = False"

text \<open>The events the per-file loop can produce.\<close>

fun loop_event :: "event \<Rightarrow> bool" where
  "loop_event (Log (Scheduled m)) = False"
| "loop_event (Log StoppedInitialDelay) = False"
| "loop_event (Log (Connecting h p)) = False"
| "loop_event (Log Connected) = False"
| "loop_event (Log ConnectionFailed) = False"
| "loop_event (Log m) = True"
| "loop_event (Done b) = False"
| "loop_event NormalizeCall = False"
| "loop_event CloseSftp = False"
| "loop_event CloseTransport = False"
| "loop_event ev = True"

text \<open>The terminal item \<^verbatim>\<open>("done", flag)\<close>.\<close>

fun is_done :: "event \<Rightarrow> bool" where
  "is_done (Done b) = True"
| "is_done ev = False"

text \<open>The countdown ticks of a wait: a countdown line or a one-second wait.\<close>

fun tick_event :: "event \<Rightarrow> bool" where
  "tick_event (Timer (Countdown p m sec lbl)) = True"
| "tick_event Wait1 = True"
| "tick_event ev = False"

text \<open>The ticks of a wait with prefix \<open>p\<close> and label \<open>l\<close> (the bracketed suffix).\<close>

fun labelled :: "string \<Rightarrow> int \<Rightarrow> event \<Rightarrow> bool" where
  "labelled p l (Timer (Countdown q m sec lbl)) = (q = p \<and> lbl = (if l \<noteq> 0 then Some l else None))"
| "labelled p l Wait1 = True"
| "labelled p l ev = False"

text \<open>
  Whether a poll of the stop flag finds it set, when the next \<open>n\<close> batches of the script
  take effect before the poll.
\<close>

definition stop_seen :: "nat \<Rightarrow> wstate \<Rightarrow> bool" where
  "stop_seen n s \<longleftrightarrow> stop_flag s \<or> list_ex (\<lambda>b. Stop \<in> set b) (take n (pending s))"

text \<open>
  What the first \<open>k\<close> seconds of a wait look like from outside, when \<open>n\<close> seconds remain at
  its start and it has prefix \<open>p\<close> and label \<open>l\<close>: second by second the countdown line with
  the time remaining, then the one-second wait.
\<close>

fun countdown :: "string \<Rightarrow> int \<Rightarrow> nat \<Rightarrow> nat \<Rightarrow> event list" where
  "countdown p l n 0 = []"
| "countdown p l n (Suc k) =
     Timer (Countdown p (int n div 60) (int n mod 60) (if l \<noteq> 0 then Some l else None))
       # Wait1 # countdown p l (n - 1) k"

text \<open>The events the inter-file delay stage can produce.\<close>

fun delay_event :: "event \<Rightarrow> bool" where
  "delay_event (Timer x) = True"
| "delay_event Wait1 = True"
| "delay_event IsActiveCall = True"
| "delay_event ConnectCall = True"
| "delay_event (Log ReconnectingAfterDelay) = True"
| "delay_event (Log Reconnected) = True"
| "delay_event (Log ReconnectFailed) = True"
| "delay_event ev = False"

text \<open>The test \<^verbatim>\<open>os.path.exists\<close>, made once for every file the loop reaches.\<close>

fun is_exists :: "event \<Rightarrow> bool" where
  "is_exists (ExistsCall f) = True"
| "is_exists ev = False"

text \<open>The log lines after which the loop is left by \<^verbatim>\<open>break\<close>.\<close>

fun fatal_log :: "event \<Rightarrow> bool" where
  "fatal_log (Log ReconnectFailed) = True"
| "fatal_log (Log StoppedAfterTest) = True"
| "fatal_log (Log StoppedByUser) = True"
| "fatal_log ev = False"

text \<open>
  In the events of a stage of the loop such a line, if there is one, is the last event,
  there is only one, and the stage leaves by \<^verbatim>\<open>break\<close>.
\<close>

definition fatal_last :: "ctl \<Rightarrow> event list \<Rightarrow> bool" where
  "fatal_last k evs \<longleftrightarrow>
     (list_ex fatal_log evs \<longrightarrow>
        k = Break \<and> fatal_log (last evs) \<and> \<not> list_ex fatal_log (butlast evs))"

text \<open>
  The event that ends the upload stage of file \<open>k\<close>: its "done" line, its "Error" line, or
  its skip line.
\<close>

fun upload_end :: "nat \<Rightarrow> event \<Rightarrow> bool" where
  "upload_end k (Log (UploadDone i n)) = (i = k)"
| "upload_end k (Log (UploadError i n)) = (i = k)"
| "upload_end k (Log (Skip i n f)) = (i = k)"
| "upload_end k ev = False"

text \<open>A stretch of events with no confirmation request and no end of file \<open>k\<close>'s upload stage.\<close>

definition clean :: "nat \<Rightarrow> event list \<Rightarrow> bool" where
  "clean k evs \<longleftrightarrow> Confirm \<notin> set evs \<and> \<not> list_ex (upload_end k) evs"

text \<open>
  The events of a loop that got through the upload stage of file \<open>k\<close>, the test count: the
  end of that stage, the line "Test batch done", the confirmation request, and then nothing
  (the worker waits for the reply), the line "Stopped after test batch" (the loop is left),
  or the line "Continuing" and what follows.
\<close>

definition confirmed_shape :: "nat \<Rightarrow> ctl \<Rightarrow> event list \<Rightarrow> bool" where
  "confirmed_shape k c evs \<longleftrightarrow>
     (\<exists>pre ev post.
         evs = pre @ ev # Log (TestBatchDone (int k)) # Confirm # post
       \<and> upload_end k ev \<and> clean k pre \<and> clean k post
       \<and> ((post = [] \<and> c = Block)
          \<or> (post = [Log StoppedAfterTest] \<and> c = Break)
          \<or> (\<exists>post'. post = Log Continuing # post' \<and> c \<noteq> Block)))"

subsection \<open>Relations between states\<close>

text \<open>Two states that agree on everything but the events sent so far.\<close>

definition same_shared :: "wstate \<Rightarrow> wstate \<Rightarrow> bool" where
  "same_shared s t \<longleftrightarrow>
     stop_flag s = stop_flag t \<and> reply_q s = reply_q t \<and> pending s = pending t"

text \<open>
  Two results of a stage, started in states \<open>s\<close> and \<open>t\<close>: the same way of leaving, the same
  shared state afterwards and the same events added.
\<close>

definition stage_rel :: "'a \<times> wstate \<Rightarrow> 'a \<times> wstate \<Rightarrow> wstate \<Rightarrow> wstate \<Rightarrow> bool" where
  "stage_rel r r' s t \<longleftrightarrow>
     fst r = fst r' \<and> same_shared (snd r) (snd r')
     \<and> (\<exists>evs. out (snd r) = out s @ evs \<and> out (snd r') = out t @ evs)"

text \<open>What a request of the GUI puts on the reply queue.\<close>

fun reply_of :: "action \<Rightarrow> bool" where
  "reply_of Stop = False"
| "reply_of (Answer b) = b"

text \<open>
  Two scripts of requests still to come, the second with one more \<open>Stop\<close> than the first,
  placed somewhere after a \<open>Stop\<close> (\<open>f\<close> says that one has taken effect already).
\<close>

definition pend_rel :: "bool \<Rightarrow> action list list \<Rightarrow> action list list \<Rightarrow> bool" where
  "pend_rel f p p' \<longleftrightarrow>
     (\<exists>pre xs ys post. p = pre @ (xs @ ys) # post \<and> p' = pre @ (xs @ Stop # ys) # post
        \<and> (f \<or> Stop \<in> set (concat pre @ xs)))"

text \<open>
  The state \<open>t\<close> of a worker whose GUI asks to stop once more than the GUI of the worker in
  state \<open>s\<close>: same events, same flag, and either the extra request is still to come, or it
  has taken effect and the reply queue of \<open>t\<close> holds one more \<open>False\<close>, not at its head.
  \<open>g\<close> says that \<^verbatim>\<open>reply_q.get()\<close> may still be called; until then a set flag means a reply
  queue that is not empty.
\<close>

definition sim :: "bool \<Rightarrow> wstate \<Rightarrow> wstate \<Rightarrow> bool" where
  "sim g s t \<longleftrightarrow>
     out t = out s \<and> stop_flag t = stop_flag s
   \<and> (g \<longrightarrow> stop_flag s \<longrightarrow> reply_q s \<noteq> [])
   \<and> ((pend_rel (stop_flag s) (pending s) (pending t) \<and> (g \<longrightarrow> reply_q t = reply_q s))
      \<or> (stop_flag s \<and> pending t = pending s
          \<and> (g \<longrightarrow> (\<exists>q1 q2. q1 \<noteq> [] \<and> reply_q s = q1 @ q2 \<and> reply_q t = q1 @ False # q2))))"

text \<open>Two results of a stage: the same way of leaving, and states related as above.\<close>

definition stage_sim :: "bool \<Rightarrow> 'a \<times> wstate \<Rightarrow> 'a \<times> wstate \<Rightarrow> bool" where
  "stage_sim g r r' \<longleftrightarrow> fst r' = fst r \<and> sim g (snd r) (snd r')"

subsection \<open>Sample inputs\<close>

text \<open>A configuration without delays or test batch, and a world where everything works.\<close>

definition demo_cfg :: cfg where
  "demo_cfg = \<lparr>host = ''h'', port = ''22'', remote_dir = ''up/'', use_delay = False,
                delay = Some 90, use_test = False, test_n = Some 3, start_delay_min = Some 0\<rparr>"

definition demo_env :: env where
  "demo_env = \<lparr>connect_ok = True, home_ok = True, file_exists = (\<lambda>i. True),
                active_before = (\<lambda>i. True), reconnect_ok = (\<lambda>i. True), put_ok = (\<lambda>i. True),
                active_after = (\<lambda>i. True), reconnect_after_ok = (\<lambda>i. True)\<rparr>"

text \<open>The sample configuration with a test batch of \<open>n\<close> files, and five files.\<close>

definition test_cfg :: "int \<Rightarrow> cfg" where
  "test_cfg n = demo_cfg\<lparr>use_test := True, test_n := Some n\<rparr>"

definition five_files :: "string list" where
  "five_files = [''a.txt'', ''b.txt'', ''c.txt'', ''d.txt'', ''e.txt'']"

text \<open>A world where the session is found dead after a long delay and cannot be reopened.\<close>

definition drop_env :: env where
  "drop_env = demo_env\<lparr>active_after := (\<lambda>i. False), reconnect_after_ok := (\<lambda>i. False)\<rparr>"

text \<open>A world where no local file exists.\<close>

definition missing_env :: env where
  "missing_env = demo_env\<lparr>file_exists := (\<lambda>i. False)\<rparr>"

text \<open>Worlds where every upload fails, where the session is dead before every upload and
  cannot be reopened, and where the first connection is refused.\<close>

definition fail_env :: env where
  "fail_env = demo_env\<lparr>put_ok := (\<lambda>i. False)\<rparr>"

definition dead_env :: env where
  "dead_env = demo_env\<lparr>active_before := (\<lambda>i. False), reconnect_ok := (\<lambda>i. False)\<rparr>"

definition refuse_env :: env where
  "refuse_env = demo_env\<lparr>connect_ok := False\<rparr>"

section \<open>Basic facts\<close>

subsection \<open>Events of each stage\<close>

lemma emit_simps [simp]:
  "stop_flag (emit ev s) = stop_flag s"
  "reply_q (emit ev s) = reply_q s"
  "pending (emit ev s) = pending s"
  "out (emit ev s) = out s @ [ev]"
  by (simp_all add: emit_def)

lemma apply_action_out [simp]: "out (apply_action s a) = out s"
  by (cases a) (simp_all add: reply_put_def stop_def)

lemma apply_action_pending [simp]: "pending (apply_action s a) = pending s"
  by (cases a) (simp_all add: reply_put_def stop_def)

lemma foldl_apply_out [simp]: "out (foldl apply_action s b) = out s"
  by (induction b arbitrary: s) simp_all

lemma foldl_apply_pending [simp]: "pending (foldl apply_action s b) = pending s"
  by (induction b arbitrary: s) simp_all

lemma absorb_out [simp]: "out (absorb s) = out s"
  by (simp add: absorb_def split: list.splits)

lemma absorb_pending [simp]: "pending (absorb s) = tl (pending s)"
  by (simp add: absorb_def split: list.splits)

lemma waiting_start: "waiting_event ev \<Longrightarrow> start_event ev"
  by (cases ev) simp_all

lemma waiting_loop: "waiting_event ev \<Longrightarrow> loop_event ev"
  by (cases ev) simp_all

lemma list_all_mono: "list_all P xs \<Longrightarrow> (\<And>x. P x \<Longrightarrow> Q x) \<Longrightarrow> list_all Q xs"
  by (induction xs) auto

lemma sleep_loop_out:
  "\<exists>evs. out (snd (sleep_loop p t n s)) = out s @ evs \<and> list_all waiting_event evs"
proof (induction n arbitrary: s)
  case 0
  show ?case by simp
next
  case (Suc n)
  show ?case
  proof (cases "stop_flag (absorb s)")
    case True
    then show ?thesis by simp
  next
    case False
    let ?s3 = "emit Wait1 (absorb (if p \<noteq> [] then emit (Timer (Countdown p (int (Suc n) div 60) (int (Suc n) mod 60) (if t \<noteq> 0 then Some t else None))) (absorb s) else absorb s))"
    from Suc.IH [of ?s3] obtain evs where
      "out (snd (sleep_loop p t n ?s3)) = out ?s3 @ evs" "list_all waiting_event evs" by blast
    with False show ?thesis by (auto simp: Let_def)
  qed
qed

lemma sleep_out:
  assumes "sleep d p t s = (ok, s')"
  shows "\<exists>evs. out s' = out s @ evs \<and> list_all waiting_event evs"
  using sleep_loop_out [of p t "nat d" s] assms by (simp add: sleep_def)

lemma initial_delay_out:
  assumes "initial_delay m s = (ok, s1)"
  shows "\<exists>evs. list_all start_event evs \<and>
           out s1 = out s @ evs @ (if ok then [] else [Log StoppedInitialDelay, Done False])"
proof (cases "m * 60 > 0")
  case False
  with assms show ?thesis by (simp add: initial_delay_def)
next
  case True
  obtain ok2 s2 where sl: "sleep (m * 60) ''Starting in'' 0
      (emit (Log (Scheduled (m))) s) = (ok2, s2)" by fastforce
  from sleep_out [OF sl] obtain evs where
    evs: "out s2 = out s @ [Log (Scheduled (m))] @ evs" "list_all waiting_event evs"
    by auto
  from evs(2) have st: "list_all start_event evs" by (rule list_all_mono) (rule waiting_start)
  show ?thesis
  proof (cases ok2)
    case True
    with assms \<open>m * 60 > 0\<close> sl have "ok" "s1 = emit (Timer Cleared) s2"
      by (auto simp: initial_delay_def Let_def)
    with evs st show ?thesis
      by (intro exI [of _ "Log (Scheduled (m)) # evs @ [Timer Cleared]"]) simp
  next
    case False
    with assms \<open>m * 60 > 0\<close> sl
    have "\<not> ok" "s1 = emit (Done False) (emit (Log StoppedInitialDelay) s2)"
      by (auto simp: initial_delay_def Let_def)
    with evs st show ?thesis
      by (intro exI [of _ "Log (Scheduled (m)) # evs"]) simp
  qed
qed

lemma connect_stage_ok:
  assumes "connect_stage c e s = (True, s2)"
  shows "connect_ok e \<and> home_ok e \<and>
         out s2 = out s @ [Log (Connecting (host c) (port c)), ConnectCall, NormalizeCall, Log Connected]"
  using assms by (auto simp: connect_stage_def Let_def split: if_splits)

lemma connect_stage_fail:
  assumes "connect_stage c e s = (False, s2)"
  shows "(\<not> connect_ok e \<or> \<not> home_ok e) \<and>
         (out s2 = out s @ [Log (Connecting (host c) (port c)), ConnectCall, Log ConnectionFailed, Done False]
        \<or> out s2 = out s @ [Log (Connecting (host c) (port c)), ConnectCall, NormalizeCall, Log ConnectionFailed, Done False])"
  using assms by (auto simp: connect_stage_def Let_def split: if_splits)

lemma upload_file_out:
  assumes "upload_file e rdir tot idx fpath s = (k, s')"
  shows "\<exists>evs. out s' = out s @ evs \<and> list_all loop_event evs"
  using assms by (auto simp: upload_file_def Let_def split: if_splits)

lemma checkpoint_out:
  assumes "checkpoint tc idx s = (k, s')"
  shows "\<exists>evs. out s' = out s @ evs \<and> list_all loop_event evs"
  using assms by (auto simp: checkpoint_def Let_def split: if_splits list.splits)

lemma inter_file_delay_out:
  assumes "inter_file_delay e dly tot idx s = (k, s')"
  shows "\<exists>evs. out s' = out s @ evs \<and> list_all loop_event evs"
proof (cases "dly \<noteq> 0 \<and> idx < tot \<and> \<not> stop_flag (absorb s)")
  case False
  with assms show ?thesis by (auto simp: inter_file_delay_def Let_def split: if_splits)
next
  case True
  obtain ok2 s2 where sl: "sleep dly ''Next upload in'' (int idx + 1) (absorb s) = (ok2, s2)"
    by fastforce
  from sleep_out [OF sl] obtain evs where
    evs: "out s2 = out s @ evs" "list_all waiting_event evs" by auto
  from evs(2) have "list_all loop_event evs" by (rule list_all_mono) (rule waiting_loop)
  with assms True sl evs(1) show ?thesis
    by (auto simp: inter_file_delay_def Let_def split: if_splits bool.splits)
qed

lemma iteration_out:
  assumes "iteration e rdir dly tc tot idx fpath s = (k, s')"
  shows "\<exists>evs. out s' = out s @ evs \<and> list_all loop_event evs"
proof (cases "stop_flag (absorb s)")
  case True
  with assms show ?thesis by (auto simp: iteration_def Let_def)
next
  case False
  obtain k1 s1 where u: "upload_file e rdir tot idx fpath (absorb s) = (k1, s1)" by fastforce
  obtain k2 s2 where c: "checkpoint tc idx s1 = (k2, s2)" by fastforce
  obtain k3 s3 where d: "inter_file_delay e dly tot idx s2 = (k3, s3)" by fastforce
  from upload_file_out [OF u] checkpoint_out [OF c] inter_file_delay_out [OF d]
  obtain ev1 ev2 ev3 where
    "out s1 = out s @ ev1" "list_all loop_event ev1"
    "out s2 = out s1 @ ev2" "list_all loop_event ev2"
    "out s3 = out s2 @ ev3" "list_all loop_event ev3" by auto
  with assms False u c d show ?thesis
    by (cases k1; cases k2) (auto simp: iteration_def Let_def)
qed

lemma upload_loop_out:
  assumes "upload_loop e rdir dly tc tot idx files s = (k, s')"
  shows "\<exists>evs. out s' = out s @ evs \<and> list_all loop_event evs"
  using assms
proof (induction files arbitrary: idx s)
  case Nil
  then show ?case by simp
next
  case (Cons f fs)
  obtain k1 s1 where it: "iteration e rdir dly tc tot idx f s = (k1, s1)" by fastforce
  from iteration_out [OF it] obtain ev1 where ev1: "out s1 = out s @ ev1" "list_all loop_event ev1"
    by auto
  show ?case
  proof (cases "k1 = Next")
    case True
    with Cons.prems it have "upload_loop e rdir dly tc tot (Suc idx) fs s1 = (k, s')" by simp
    from Cons.IH [OF this] ev1 show ?thesis by auto
  next
    case False
    with Cons.prems it have "k = k1" "s' = s1" by (cases k1; simp)+
    with ev1 show ?thesis by auto
  qed
qed

lemma start_not_done: "start_event ev \<Longrightarrow> \<not> is_done ev"
  by (cases ev) simp_all

lemma loop_not_done: "loop_event ev \<Longrightarrow> \<not> is_done ev"
  by (cases ev) simp_all

lemma no_done_start: "list_all start_event evs \<Longrightarrow> \<not> list_ex is_done evs"
  by (induction evs) (auto dest: start_not_done)

lemma no_done_loop: "list_all loop_event evs \<Longrightarrow> \<not> list_ex is_done evs"
  by (induction evs) (auto dest: loop_not_done)

lemma checkpoint_block:
  assumes "checkpoint tc idx s = (Block, s')"
  shows "out s' \<noteq> [] \<and> last (out s') = Confirm \<and> reply_q s' = [] \<and> tc \<noteq> 0"
  using assms by (auto simp: checkpoint_def Let_def split: if_splits list.splits)

lemma upload_file_no_block: "fst (upload_file e rdir tot idx fpath s) \<noteq> Block"
  by (auto simp: upload_file_def Let_def split: if_splits)

lemma inter_file_delay_no_block: "fst (inter_file_delay e dly tot idx s) \<noteq> Block"
  by (auto simp: inter_file_delay_def Let_def split: if_splits prod.splits bool.splits)

lemma iteration_block:
  assumes "iteration e rdir dly tc tot idx fpath s = (Block, s')"
  shows "out s' \<noteq> [] \<and> last (out s') = Confirm \<and> reply_q s' = [] \<and> tc \<noteq> 0"
proof -
  obtain k1 s1 where u: "upload_file e rdir tot idx fpath (absorb s) = (k1, s1)" by fastforce
  obtain k2 s2 where c: "checkpoint tc idx s1 = (k2, s2)" by fastforce
  obtain k3 s3 where d: "inter_file_delay e dly tot idx s2 = (k3, s3)" by fastforce
  from upload_file_no_block [of e rdir tot idx fpath "absorb s"] u have k1: "k1 \<noteq> Block" by simp
  from inter_file_delay_no_block [of e dly tot idx s2] d have k3: "k3 \<noteq> Block" by simp
  from assms u c d k1 k3 have "k2 = Block \<and> s' = s2"
    by (cases k1; cases k2) (auto simp: iteration_def Let_def split: if_splits)
  with c checkpoint_block show ?thesis by blast
qed

lemma upload_loop_block:
  assumes "upload_loop e rdir dly tc tot idx files s = (Block, s')"
  shows "out s' \<noteq> [] \<and> last (out s') = Confirm \<and> reply_q s' = [] \<and> tc \<noteq> 0"
  using assms
proof (induction files arbitrary: idx s)
  case Nil
  then show ?case by simp
next
  case (Cons f fs)
  obtain k1 s1 where it: "iteration e rdir dly tc tot idx f s = (k1, s1)" by fastforce
  show ?case
  proof (cases k1)
    case Next
    with Cons.prems it have "upload_loop e rdir dly tc tot (Suc idx) fs s1 = (Block, s')" by simp
    from Cons.IH [OF this] show ?thesis .
  next
    case Break
    with Cons.prems it show ?thesis by simp
  next
    case Block
    with Cons.prems it have "s' = s1" by simp
    with it Block iteration_block show ?thesis by blast
  qed
qed

lemma init_simps [simp]:
  "stop_flag (init script) = False"
  "reply_q (init script) = []"
  "pending (init script) = script"
  "out (init script) = []"
  by (simp_all add: init_def)

lemma teardown_out [simp]: "out (teardown s) = out s @ [CloseSftp, CloseTransport, Done True]"
  by (simp add: teardown_def)

subsection \<open>Requests taking effect\<close>

lemma apply_action_emit: "apply_action (emit ev s) a = emit ev (apply_action s a)"
  by (cases a) (simp_all add: reply_put_def stop_def emit_def)

lemma foldl_apply_emit: "foldl apply_action (emit ev s) b = emit ev (foldl apply_action s b)"
  by (induction b arbitrary: s) (simp_all add: apply_action_emit)

lemma absorb_emit [simp]: "absorb (emit ev s) = emit ev (absorb s)"
proof (cases "pending s")
  case Nil
  then show ?thesis by (simp add: absorb_def)
next
  case (Cons b bs)
  have e: "(emit ev s)\<lparr>pending := bs\<rparr> = emit ev (s\<lparr>pending := bs\<rparr>)"
    by (simp add: emit_def)
  from Cons show ?thesis by (simp add: absorb_def e foldl_apply_emit)
qed

lemma foldl_apply_flag: "stop_flag (foldl apply_action s b) = (stop_flag s \<or> Stop \<in> set b)"
proof (induction b arbitrary: s)
  case Nil
  show ?case by simp
next
  case (Cons a b)
  show ?case by (cases a) (auto simp: Cons.IH reply_put_def stop_def)
qed

lemma foldl_apply_reply: "reply_q (foldl apply_action s b) = reply_q s @ map reply_of b"
proof (induction b arbitrary: s)
  case Nil
  show ?case by simp
next
  case (Cons a b)
  show ?case by (cases a) (auto simp: Cons.IH reply_put_def stop_def)
qed

lemma absorb_flag:
  "stop_flag (absorb s) = (stop_flag s \<or> (pending s \<noteq> [] \<and> Stop \<in> set (hd (pending s))))"
  by (cases "pending s") (simp_all add: absorb_def foldl_apply_flag)

lemma absorb_reply:
  "reply_q (absorb s) = reply_q s @ (case pending s of [] \<Rightarrow> [] | b # bs \<Rightarrow> map reply_of b)"
  by (cases "pending s") (simp_all add: absorb_def foldl_apply_reply)

lemma sleep_loop_interrupted:
  assumes "0 < n"
    and "stop_flag s \<or> (\<exists>j. j < 2 * n - 1 \<and> j < length (pending s) \<and> Stop \<in> set (pending s ! j))"
  shows "\<not> fst (sleep_loop p t n s)"
  using assms
proof (induction n arbitrary: s)
  case 0
  then show ?case by simp
next
  case (Suc n)
  show ?case
  proof (cases "stop_flag (absorb s)")
    case True
    then show ?thesis by simp
  next
    case False
    then have nf: "\<not> stop_flag s" and nh: "pending s \<noteq> [] \<longrightarrow> Stop \<notin> set (hd (pending s))"
      by (auto simp: absorb_flag)
    with Suc.prems(2) obtain j where
      j: "j < 2 * Suc n - 1" "j < length (pending s)" "Stop \<in> set (pending s ! j)" by auto
    from j nh have j0: "j \<noteq> 0" by (cases "pending s"; cases j; auto)
    let ?s2 = "if p \<noteq> [] then emit (Timer (Countdown p (int (Suc n) div 60) (int (Suc n) mod 60)
                 (if t \<noteq> 0 then Some t else None))) (absorb s) else absorb s"
    let ?s3 = "emit Wait1 (absorb ?s2)"
    have p3: "pending ?s3 = tl (tl (pending s))" by simp
    have f2: "\<not> stop_flag ?s2" using False by simp
    have p2: "pending ?s2 = tl (pending s)" by simp
    have n0: "0 < n" using j j0 by (cases n) auto
    have "stop_flag ?s3 \<or> (\<exists>i. i < 2 * n - 1 \<and> i < length (pending ?s3) \<and> Stop \<in> set (pending ?s3 ! i))"
    proof (cases "j = 1")
      case True
      with j have "tl (pending s) \<noteq> []" "Stop \<in> set (hd (tl (pending s)))"
        by (cases "pending s"; cases "tl (pending s)"; auto)+
      with p2 have "stop_flag (absorb ?s2)" by (simp only: absorb_flag) simp
      then show ?thesis by simp
    next
      case False
      with j0 have j2: "2 \<le> j" by simp
      with j have "j - 2 < 2 * n - 1" "j - 2 < length (tl (tl (pending s)))"
        "Stop \<in> set (tl (tl (pending s)) ! (j - 2))"
        by (auto simp: nth_tl numeral_2_eq_2 Suc_diff_Suc)
      with p3 show ?thesis by (metis (no_types, lifting))
    qed
    from Suc.IH [OF n0 this] have "\<not> fst (sleep_loop p t n ?s3)" .
    moreover have "sleep_loop p t (Suc n) s = sleep_loop p t n ?s3"
      using False by (simp add: Let_def)
    ultimately show ?thesis by metis
  qed
qed

lemma sleep_loop_ticks:
  assumes "p \<noteq> []"
  shows "\<exists>ticks. list_all tick_event ticks \<and>
           out (snd (sleep_loop p t n s)) =
             out s @ ticks @ (if fst (sleep_loop p t n s) then [Timer Cleared] else [])"
proof (induction n arbitrary: s)
  case 0
  from assms show ?case by simp
next
  case (Suc n)
  show ?case
  proof (cases "stop_flag (absorb s)")
    case True
    then show ?thesis by simp
  next
    case False
    let ?tk = "Timer (Countdown p (int (Suc n) div 60) (int (Suc n) mod 60)
                 (if t \<noteq> 0 then Some t else None))"
    let ?s3 = "emit Wait1 (absorb (emit ?tk (absorb s)))"
    have step: "sleep_loop p t (Suc n) s = sleep_loop p t n ?s3"
      using False assms by (simp add: Let_def)
    from Suc.IH [of ?s3] obtain ticks where
      tk: "list_all tick_event ticks"
          "out (snd (sleep_loop p t n ?s3)) =
             out ?s3 @ ticks @ (if fst (sleep_loop p t n ?s3) then [Timer Cleared] else [])"
      by blast
    have "out ?s3 = out s @ [?tk, Wait1]" by simp
    with tk show ?thesis
      unfolding step
      by (intro exI [of _ "?tk # Wait1 # ticks"]) simp
  qed
qed

subsection \<open>Where the loop is left\<close>

lemma fatal_last_Nil [simp]: "fatal_last k []"
  by (simp add: fatal_last_def)

lemma fatal_last_free: "\<not> list_ex fatal_log evs \<Longrightarrow> fatal_last k evs"
  by (simp add: fatal_last_def)

lemma fatal_last_append:
  assumes "\<not> list_ex fatal_log e1" and "fatal_last k e2"
  shows "fatal_last k (e1 @ e2)"
proof (cases "e2 = []")
  case True
  with assms(1) show ?thesis by (simp add: fatal_last_def)
next
  case False
  with assms show ?thesis
    by (auto simp: fatal_last_def butlast_append list_ex_iff)
qed

lemma waiting_not_fatal: "waiting_event ev \<Longrightarrow> \<not> fatal_log ev"
  by (cases ev) simp_all

lemma waiting_free: "list_all waiting_event evs \<Longrightarrow> \<not> list_ex fatal_log evs"
  by (induction evs) (auto dest: waiting_not_fatal)

lemma upload_file_fatal:
  assumes "upload_file e rdir tot idx fpath s = (k, s')"
  shows "\<exists>evs. out s' = out s @ evs \<and> fatal_last k evs \<and> (k = Next \<longrightarrow> \<not> list_ex fatal_log evs)"
  using assms
  by (auto simp: upload_file_def Let_def fatal_last_def split: if_splits)

lemma checkpoint_fatal:
  assumes "checkpoint tc idx s = (k, s')"
  shows "\<exists>evs. out s' = out s @ evs \<and> fatal_last k evs \<and> (k = Next \<longrightarrow> \<not> list_ex fatal_log evs)"
  using assms
  by (auto simp: checkpoint_def Let_def fatal_last_def split: if_splits list.splits)

lemma inter_file_delay_fatal:
  assumes "inter_file_delay e dly tot idx s = (k, s')"
  shows "\<exists>evs. out s' = out s @ evs \<and> fatal_last k evs \<and> (k = Next \<longrightarrow> \<not> list_ex fatal_log evs)"
proof (cases "dly \<noteq> 0 \<and> idx < tot \<and> \<not> stop_flag (absorb s)")
  case False
  with assms show ?thesis by (auto simp: inter_file_delay_def Let_def split: if_splits)
next
  case True
  obtain ok2 s2 where sl: "sleep dly ''Next upload in'' (int idx + 1) (absorb s) = (ok2, s2)"
    by fastforce
  from sleep_out [OF sl] obtain evs where
    evs: "out s2 = out s @ evs" "list_all waiting_event evs" by auto
  from evs(2) have nf: "\<not> list_ex fatal_log evs" by (rule waiting_free)
  show ?thesis
  proof (cases ok2)
    case False
    with assms True sl have "k = Break" "s' = s2" by (auto simp: inter_file_delay_def)
    with evs(1) nf show ?thesis by (auto intro: fatal_last_free)
  next
    case ok: True
    let ?s3 = "emit (Timer Cleared) s2"
    from nf have nf3: "\<not> list_ex fatal_log (evs @ [Timer Cleared])" by simp
    from assms True sl ok
    have "(k = Next \<and> (s' = ?s3 \<or> s' = emit IsActiveCall ?s3
              \<or> s' = emit (Log Reconnected) (emit ConnectCall (emit (Log ReconnectingAfterDelay) (emit IsActiveCall ?s3)))))
        \<or> (k = Break \<and> s' = emit (Log ReconnectFailed) (emit ConnectCall (emit (Log ReconnectingAfterDelay) (emit IsActiveCall ?s3))))"
      by (auto simp: inter_file_delay_def Let_def split: if_splits)
    then show ?thesis
    proof (elim disjE conjE)
      assume "k = Next" "s' = ?s3"
      with evs(1) nf show ?thesis
        by (intro exI [of _ "evs @ [Timer Cleared]"]) (auto intro: fatal_last_free)
    next
      assume "k = Next" "s' = emit IsActiveCall ?s3"
      with evs(1) nf show ?thesis
        by (intro exI [of _ "evs @ [Timer Cleared, IsActiveCall]"]) (auto intro: fatal_last_free)
    next
      assume "k = Next" "s' = emit (Log Reconnected) (emit ConnectCall (emit (Log ReconnectingAfterDelay) (emit IsActiveCall ?s3)))"
      with evs(1) nf show ?thesis
        by (intro exI [of _ "evs @ [Timer Cleared, IsActiveCall, Log ReconnectingAfterDelay, ConnectCall, Log Reconnected]"])
           (auto intro: fatal_last_free)
    next
      assume "k = Break" "s' = emit (Log ReconnectFailed) (emit ConnectCall (emit (Log ReconnectingAfterDelay) (emit IsActiveCall ?s3)))"
      with evs(1) nf show ?thesis
        by (intro exI [of _ "evs @ [Timer Cleared, IsActiveCall, Log ReconnectingAfterDelay, ConnectCall, Log ReconnectFailed]"])
           (auto simp: fatal_last_def butlast_append)
    qed
  qed
qed

lemma iteration_fatal:
  assumes "iteration e rdir dly tc tot idx fpath s = (k, s')"
  shows "\<exists>evs. out s' = out s @ evs \<and> fatal_last k evs \<and> (k = Next \<longrightarrow> \<not> list_ex fatal_log evs)"
proof (cases "stop_flag (absorb s)")
  case True
  with assms show ?thesis by (auto simp: iteration_def Let_def fatal_last_def)
next
  case False
  obtain k1 s1 where u: "upload_file e rdir tot idx fpath (absorb s) = (k1, s1)" by fastforce
  obtain k2 s2 where c: "checkpoint tc idx s1 = (k2, s2)" by fastforce
  obtain k3 s3 where d: "inter_file_delay e dly tot idx s2 = (k3, s3)" by fastforce
  from upload_file_fatal [OF u] obtain ev1 where
    ev1: "out s1 = out s @ ev1" "fatal_last k1 ev1" "k1 = Next \<longrightarrow> \<not> list_ex fatal_log ev1" by auto
  from checkpoint_fatal [OF c] obtain ev2 where
    ev2: "out s2 = out s1 @ ev2" "fatal_last k2 ev2" "k2 = Next \<longrightarrow> \<not> list_ex fatal_log ev2" by auto
  from inter_file_delay_fatal [OF d] obtain ev3 where
    ev3: "out s3 = out s2 @ ev3" "fatal_last k3 ev3" "k3 = Next \<longrightarrow> \<not> list_ex fatal_log ev3" by auto
  show ?thesis
  proof (cases "k1 = Next")
    case k1: False
    with assms False u have "k = k1" "s' = s1" by (cases k1; simp add: iteration_def Let_def)+
    with ev1 k1 show ?thesis by auto
  next
    case k1: True
    show ?thesis
    proof (cases "k2 = Next")
      case k2: False
      with assms False u c k1 have "k = k2" "s' = s2"
        by (cases k2; simp add: iteration_def Let_def)+
      with ev1 ev2 k1 k2 show ?thesis
        by (intro exI [of _ "ev1 @ ev2"]) (auto intro: fatal_last_append)
    next
      case k2: True
      with assms False u c d k1 have "k = k3" "s' = s3" by (simp_all add: iteration_def Let_def)
      moreover from ev1(3) ev2(3) k1 k2 have "\<not> list_ex fatal_log (ev1 @ ev2)" by simp
      ultimately show ?thesis using ev1(1) ev2(1) ev3 fatal_last_append [of "ev1 @ ev2" k3 ev3]
        by (intro exI [of _ "ev1 @ ev2 @ ev3"]) auto
    qed
  qed
qed

lemma upload_loop_fatal:
  assumes "upload_loop e rdir dly tc tot idx files s = (k, s')"
  shows "\<exists>evs. out s' = out s @ evs \<and> fatal_last k evs"
  using assms
proof (induction files arbitrary: idx s)
  case Nil
  then show ?case by simp
next
  case (Cons f fs)
  obtain k1 s1 where it: "iteration e rdir dly tc tot idx f s = (k1, s1)" by fastforce
  from iteration_fatal [OF it] obtain ev1 where
    ev1: "out s1 = out s @ ev1" "fatal_last k1 ev1" "k1 = Next \<longrightarrow> \<not> list_ex fatal_log ev1" by auto
  show ?case
  proof (cases "k1 = Next")
    case True
    with Cons.prems it have "upload_loop e rdir dly tc tot (Suc idx) fs s1 = (k, s')" by simp
    from Cons.IH [OF this] obtain ev2 where "out s' = out s1 @ ev2" "fatal_last k ev2" by auto
    with ev1 True show ?thesis
      by (intro exI [of _ "ev1 @ ev2"]) (auto intro: fatal_last_append)
  next
    case False
    with Cons.prems it have "k = k1" "s' = s1" by (cases k1; simp)+
    with ev1 show ?thesis by auto
  qed
qed

lemma run_no_start:
  assumes "start_delay_min c = None"
  shows "run c files e s = (Raises, s)"
  using assms by (simp add: run_def)

lemma run_shape:
  assumes "run c files e (init script) = (st, s')" and "start_delay_min c = Some m"
  shows "\<exists>ev1. list_all start_event ev1 \<and>
     ((st = Returns \<and> \<not> fst (initial_delay m (init script))
         \<and> out s' = ev1 @ [Log StoppedInitialDelay, Done False])
    \<or> (st = Returns \<and> fst (initial_delay m (init script)) \<and> \<not> connect_ok e
         \<and> out s' = ev1 @ [Log (Connecting (host c) (port c)), ConnectCall,
                           Log ConnectionFailed, Done False])
    \<or> (st = Returns \<and> fst (initial_delay m (init script)) \<and> connect_ok e \<and> \<not> home_ok e
         \<and> out s' = ev1 @ [Log (Connecting (host c) (port c)), ConnectCall, NormalizeCall,
                           Log ConnectionFailed, Done False])
    \<or> (st = Raises \<and> fst (initial_delay m (init script)) \<and> connect_ok e \<and> home_ok e
         \<and> (get_delay c = None \<or> get_test_count c = None)
         \<and> out s' = ev1 @ [Log (Connecting (host c) (port c)), ConnectCall, NormalizeCall,
                           Log Connected])
    \<or> (fst (initial_delay m (init script)) \<and> connect_ok e \<and> home_ok e
         \<and> (\<exists>dly tc k s2 s3. get_delay c = Some dly \<and> get_test_count c = Some tc
               \<and> out s2 = ev1 @ [Log (Connecting (host c) (port c)), ConnectCall,
                                  NormalizeCall, Log Connected]
               \<and> upload_loop e (rstrip_slash (remote_dir c)) dly tc (length files) 1 files s2
                    = (k, s3)
               \<and> (if k = Block then st = Blocks \<and> s' = s3
                   else st = Returns \<and> s' = teardown s3))))"
proof -
  obtain ok1 s1 where d: "initial_delay m (init script) = (ok1, s1)" by fastforce
  from initial_delay_out [OF d] obtain ev1 where
    ev1: "list_all start_event ev1"
         "out s1 = ev1 @ (if ok1 then [] else [Log StoppedInitialDelay, Done False])" by auto
  show ?thesis
  proof (cases ok1)
    case False
    with assms d have "st = Returns" "s' = s1" by (simp_all add: run_def)
    with False ev1 d show ?thesis by (intro exI [of _ ev1]) simp
  next
    case True
    with ev1 have o1: "out s1 = ev1" by simp
    from d True have fd: "fst (initial_delay m (init script))" by simp
    consider (a) "\<not> connect_ok e" | (b) "connect_ok e" "\<not> home_ok e" | (c) "connect_ok e" "home_ok e"
      by blast
    then show ?thesis
    proof cases
      case a
      with assms d True o1 have "st = Returns \<and> out s' = ev1 @ [Log (Connecting (host c) (port c)),
          ConnectCall, Log ConnectionFailed, Done False]"
        by (auto simp: run_def connect_stage_def Let_def)
      with a d True ev1(1) show ?thesis by (intro exI [of _ ev1]) simp
    next
      case b
      with assms d True o1 have "st = Returns \<and> out s' = ev1 @ [Log (Connecting (host c) (port c)),
          ConnectCall, NormalizeCall, Log ConnectionFailed, Done False]"
        by (auto simp: run_def connect_stage_def Let_def)
      with b d True ev1(1) show ?thesis by (intro exI [of _ ev1]) simp
    next
      case c
      let ?s2 = "emit (Log Connected) (emit NormalizeCall (emit ConnectCall
                   (emit (Log (Connecting (host c) (port c))) s1)))"
      from c have cs: "connect_stage c e s1 = (True, ?s2)" by (simp add: connect_stage_def Let_def)
      have o2: "out ?s2 = ev1 @ [Log (Connecting (host c) (port c)), ConnectCall,
          NormalizeCall, Log Connected]" using o1 by simp
      show ?thesis
      proof (cases "get_delay c = None \<or> get_test_count c = None")
        case True
        with assms d \<open>ok1\<close> cs have "st = Raises" "s' = ?s2"
          by (auto simp: run_def Let_def split: option.splits)
        with True o2 have "st = Raises \<and> fst (initial_delay m (init script)) \<and> connect_ok e
            \<and> home_ok e \<and> (get_delay c = None \<or> get_test_count c = None)
            \<and> out s' = ev1 @ [Log (Connecting (host c) (port c)), ConnectCall, NormalizeCall,
                              Log Connected]"
          using fd c by simp
        with ev1(1) show ?thesis by (intro exI [of _ ev1]) blast
      next
        case False
        then obtain dly tc where g: "get_delay c = Some dly" "get_test_count c = Some tc" by auto
        obtain k s3 where lp: "upload_loop e (rstrip_slash (remote_dir c)) dly tc
            (length files) 1 files ?s2 = (k, s3)" by fastforce
        from assms d \<open>ok1\<close> cs lp g have "if k = Block then st = Blocks \<and> s' = s3
            else st = Returns \<and> s' = teardown s3"
          by (cases k) (simp_all add: run_def Let_def)
        with o2 lp g have "\<exists>dly tc k s2 s3. get_delay c = Some dly \<and> get_test_count c = Some tc
               \<and> out s2 = ev1 @ [Log (Connecting (host c) (port c)), ConnectCall,
                                  NormalizeCall, Log Connected]
               \<and> upload_loop e (rstrip_slash (remote_dir c)) dly tc (length files) 1 files s2
                    = (k, s3)
               \<and> (if k = Block then st = Blocks \<and> s' = s3
                   else st = Returns \<and> s' = teardown s3)"
          by blast
        with fd c ev1(1) show ?thesis
          by (intro exI [of _ ev1] conjI disjI2) assumption+
      qed
    qed
  qed
qed

lemma start_not_fatal: "list_all start_event evs \<Longrightarrow> \<not> list_ex fatal_log evs"
proof (induction evs)
  case Nil
  show ?case by simp
next
  case (Cons ev evs)
  then show ?case by (cases ev rule: start_event.cases) auto
qed

lemma fatal_last_split:
  assumes "fatal_last k evs" and "fatal_log x" and "x \<in> set evs"
  shows "k = Break \<and> (\<exists>pre. evs = pre @ [x] \<and> \<not> list_ex fatal_log pre)"
proof -
  from assms(2,3) have ex: "list_ex fatal_log evs" by (auto simp: list_ex_iff)
  with assms(1) have k: "k = Break" and l: "fatal_log (last evs)"
    and b: "\<not> list_ex fatal_log (butlast evs)" by (auto simp: fatal_last_def)
  from ex have ne: "evs \<noteq> []" by auto
  then have dec: "evs = butlast evs @ [last evs]" by simp
  from b assms(2) have "x \<notin> set (butlast evs)" by (auto simp: list_ex_iff)
  with assms(3) dec have "x = last evs" by (metis Un_iff empty_iff empty_set set_ConsD set_append)
  with k dec b show ?thesis by metis
qed

lemma run_fatal:
  assumes "run c files e (init script) = (st, s')" and "fatal_log x" and "x \<in> set (out s')"
  shows "st = Returns \<and>
         (\<exists>pre. out s' = pre @ [x, CloseSftp, CloseTransport, Done True]
                \<and> \<not> list_ex fatal_log pre)"
proof (cases "start_delay_min c")
  case None
  with assms(1) have "s' = init script" by (simp add: run_def)
  with assms(3) show ?thesis by (simp add: init_def)
next
  case (Some m)
  from run_shape [OF assms(1) Some] obtain ev1 where st: "list_all start_event ev1" and
    sh: "(st = Returns \<and> \<not> fst (initial_delay m (init script))
         \<and> out s' = ev1 @ [Log StoppedInitialDelay, Done False])
    \<or> (st = Returns \<and> fst (initial_delay m (init script)) \<and> \<not> connect_ok e
         \<and> out s' = ev1 @ [Log (Connecting (host c) (port c)), ConnectCall,
                           Log ConnectionFailed, Done False])
    \<or> (st = Returns \<and> fst (initial_delay m (init script)) \<and> connect_ok e \<and> \<not> home_ok e
         \<and> out s' = ev1 @ [Log (Connecting (host c) (port c)), ConnectCall, NormalizeCall,
                           Log ConnectionFailed, Done False])
    \<or> (st = Raises \<and> fst (initial_delay m (init script)) \<and> connect_ok e \<and> home_ok e
         \<and> (get_delay c = None \<or> get_test_count c = None)
         \<and> out s' = ev1 @ [Log (Connecting (host c) (port c)), ConnectCall, NormalizeCall,
                           Log Connected])
    \<or> (fst (initial_delay m (init script)) \<and> connect_ok e \<and> home_ok e
         \<and> (\<exists>dly tc k s2 s3. get_delay c = Some dly \<and> get_test_count c = Some tc
               \<and> out s2 = ev1 @ [Log (Connecting (host c) (port c)), ConnectCall,
                                  NormalizeCall, Log Connected]
               \<and> upload_loop e (rstrip_slash (remote_dir c)) dly tc (length files) 1 files s2
                    = (k, s3)
               \<and> (if k = Block then st = Blocks \<and> s' = s3
                   else st = Returns \<and> s' = teardown s3)))" by blast
  from st have nf1: "\<not> list_ex fatal_log ev1" by (rule start_not_fatal)
  with assms(2) have x1: "x \<notin> set ev1" by (auto simp: list_ex_iff)
  from sh show ?thesis
  proof (elim disjE conjE exE)
    assume "out s' = ev1 @ [Log StoppedInitialDelay, Done False]"
    with assms(2,3) x1 show ?thesis by auto
  next
    assume "out s' = ev1 @ [Log (Connecting (host c) (port c)), ConnectCall,
                           Log ConnectionFailed, Done False]"
    with assms(2,3) x1 show ?thesis by auto
  next
    assume "out s' = ev1 @ [Log (Connecting (host c) (port c)), ConnectCall, NormalizeCall,
                           Log ConnectionFailed, Done False]"
    with assms(2,3) x1 show ?thesis by auto
  next
    assume "out s' = ev1 @ [Log (Connecting (host c) (port c)), ConnectCall, NormalizeCall,
                           Log Connected]" "get_delay c = None"
    with assms(2,3) x1 show ?thesis by auto
  next
    assume "out s' = ev1 @ [Log (Connecting (host c) (port c)), ConnectCall, NormalizeCall,
                           Log Connected]" "get_test_count c = None"
    with assms(2,3) x1 show ?thesis by auto
  next
    fix dly tc k s2 s3
    assume o2: "out s2 = ev1 @ [Log (Connecting (host c) (port c)), ConnectCall,
                                       NormalizeCall, Log Connected]"
      and lp: "upload_loop e (rstrip_slash (remote_dir c)) dly tc (length files) 1 files s2
                 = (k, s3)"
      and fin: "if k = Block then st = Blocks \<and> s' = s3 else st = Returns \<and> s' = teardown s3"
    from upload_loop_fatal [OF lp] obtain evs where
      evs: "out s3 = out s2 @ evs" "fatal_last k evs" by auto
    have "x \<in> set evs"
    proof (cases "k = Block")
      case True
      with fin evs(1) o2 assms(2,3) x1 show ?thesis by auto
    next
      case False
      with fin evs(1) o2 assms(2,3) x1 show ?thesis by auto
    qed
    from fatal_last_split [OF evs(2) assms(2) this] obtain bl where
      k: "k = Break" and dec: "evs = bl @ [x]" and b: "\<not> list_ex fatal_log bl" by auto
    from k fin have r: "st = Returns" "s' = teardown s3" by auto
    let ?pre = "ev1 @ [Log (Connecting (host c) (port c)), ConnectCall, NormalizeCall, Log Connected]
                @ bl"
    have "out s' = ?pre @ [x, CloseSftp, CloseTransport, Done True]"
      using r evs(1) o2 dec by simp
    moreover have "\<not> list_ex fatal_log ?pre" using nf1 b by simp
    ultimately show ?thesis using r by blast
  qed
qed

lemma sleep_loop_labelled:
  assumes "p \<noteq> []"
  shows "\<exists>ticks. list_all (labelled p t) ticks \<and>
           out (snd (sleep_loop p t n s)) =
             out s @ ticks @ (if fst (sleep_loop p t n s) then [Timer Cleared] else [])"
proof (induction n arbitrary: s)
  case 0
  from assms show ?case by simp
next
  case (Suc n)
  show ?case
  proof (cases "stop_flag (absorb s)")
    case True
    then show ?thesis by simp
  next
    case False
    let ?tk = "Timer (Countdown p (int (Suc n) div 60) (int (Suc n) mod 60)
                 (if t \<noteq> 0 then Some t else None))"
    let ?s3 = "emit Wait1 (absorb (emit ?tk (absorb s)))"
    have step: "sleep_loop p t (Suc n) s = sleep_loop p t n ?s3"
      using False assms by (simp add: Let_def)
    from Suc.IH [of ?s3] obtain ticks where
      tk: "list_all (labelled p t) ticks"
          "out (snd (sleep_loop p t n ?s3)) =
             out ?s3 @ ticks @ (if fst (sleep_loop p t n ?s3) then [Timer Cleared] else [])"
      by blast
    have "out ?s3 = out s @ [?tk, Wait1]" by simp
    with tk show ?thesis
      unfolding step
      by (intro exI [of _ "?tk # Wait1 # ticks"]) simp
  qed
qed

subsection \<open>Stages do not depend on the events sent so far\<close>

lemma same_shared_refl [simp]: "same_shared s s"
  by (simp add: same_shared_def)

lemma same_shared_emit [simp]:
  "same_shared (emit a s) t = same_shared s t"
  "same_shared s (emit b t) = same_shared s t"
  by (simp_all add: same_shared_def)

lemma same_shared_absorb: "same_shared s t \<Longrightarrow> same_shared (absorb s) (absorb t)"
  by (simp add: same_shared_def absorb_flag absorb_reply)

lemma same_shared_flag: "same_shared s t \<Longrightarrow> stop_flag s = stop_flag t"
  by (simp add: same_shared_def)

lemma stage_relI:
  "fst r = fst r' \<Longrightarrow> same_shared (snd r) (snd r') \<Longrightarrow>
   out (snd r) = out s @ evs \<Longrightarrow> out (snd r') = out t @ evs \<Longrightarrow> stage_rel r r' s t"
  by (auto simp: stage_rel_def)

lemma sleep_loop_rel:
  assumes "same_shared s t"
  shows "stage_rel (sleep_loop p l n s) (sleep_loop p l n t) s t"
  using assms
proof (induction n arbitrary: s t)
  case 0
  then show ?case by (auto simp: stage_rel_def)
next
  case (Suc n)
  from Suc.prems have ab: "same_shared (absorb s) (absorb t)" by (rule same_shared_absorb)
  then have fl: "stop_flag (absorb s) = stop_flag (absorb t)" by (rule same_shared_flag)
  show ?case
  proof (cases "stop_flag (absorb s)")
    case True
    with fl ab show ?thesis by (auto simp: stage_rel_def)
  next
    case False
    let ?f = "\<lambda>u. emit Wait1 (absorb (if p \<noteq> [] then emit (Timer (Countdown p (int (Suc n) div 60)
                 (int (Suc n) mod 60) (if l \<noteq> 0 then Some l else None))) (absorb u) else absorb u))"
    have st: "sleep_loop p l (Suc n) s = sleep_loop p l n (?f s)"
             "sleep_loop p l (Suc n) t = sleep_loop p l n (?f t)"
      using False fl by (simp_all add: Let_def)
    have ss: "same_shared (?f s) (?f t)" using ab by (auto intro: same_shared_absorb)
    from Suc.IH [OF ss] obtain evs where
      r: "fst (sleep_loop p l n (?f s)) = fst (sleep_loop p l n (?f t))"
         "same_shared (snd (sleep_loop p l n (?f s))) (snd (sleep_loop p l n (?f t)))"
         "out (snd (sleep_loop p l n (?f s))) = out (?f s) @ evs"
         "out (snd (sleep_loop p l n (?f t))) = out (?f t) @ evs"
      by (auto simp: stage_rel_def)
    have "\<exists>pre. out (?f s) = out s @ pre \<and> out (?f t) = out t @ pre" by simp
    then obtain pre where "out (?f s) = out s @ pre" "out (?f t) = out t @ pre" by blast
    with r have "out (snd (sleep_loop p l n (?f s))) = out s @ (pre @ evs)"
      "out (snd (sleep_loop p l n (?f t))) = out t @ (pre @ evs)" by simp_all
    with r(1,2) show ?thesis unfolding st by (rule stage_relI)
  qed
qed

lemma checkpoint_skip: "\<not> (tc \<noteq> 0 \<and> int idx = tc) \<Longrightarrow> checkpoint tc idx s = (Next, s)"
  by (auto simp: checkpoint_def)

lemma checkpoint_block_eq:
  "tc \<noteq> 0 \<Longrightarrow> int idx = tc \<Longrightarrow> reply_q (absorb s) = [] \<Longrightarrow>
   checkpoint tc idx s = (Block, emit Confirm (emit (Log (TestBatchDone tc)) (absorb s)))"
  by (simp add: checkpoint_def Let_def)

lemma emit_reply_update: "(emit ev s)\<lparr>reply_q := q\<rparr> = emit ev (s\<lparr>reply_q := q\<rparr>)"
  by (simp add: emit_def)

lemma checkpoint_answer_eq:
  "tc \<noteq> 0 \<Longrightarrow> int idx = tc \<Longrightarrow> reply_q (absorb s) = a # q \<Longrightarrow>
   checkpoint tc idx s =
     (if a then Next else Break,
      emit (Log (if a then Continuing else StoppedAfterTest))
        (emit Confirm (emit (Log (TestBatchDone tc)) ((absorb s)\<lparr>reply_q := q\<rparr>))))"
  by (simp add: checkpoint_def Let_def emit_reply_update)

lemma checkpoint_rel:
  assumes "same_shared s t"
  shows "stage_rel (checkpoint tc idx s) (checkpoint tc idx t) s t"
proof (cases "tc \<noteq> 0 \<and> int idx = tc")
  case False
  with assms show ?thesis by (simp add: checkpoint_skip stage_rel_def)
next
  case True
  from assms have ss: "same_shared (absorb s) (absorb t)" by (rule same_shared_absorb)
  then have rq: "reply_q (absorb t) = reply_q (absorb s)" by (simp add: same_shared_def)
  show ?thesis
  proof (cases "reply_q (absorb s)")
    case Nil
    with rq have "reply_q (absorb t) = []" by simp
    with Nil True ss show ?thesis
      by (simp add: checkpoint_block_eq stage_rel_def)
  next
    case (Cons a q)
    with rq have "reply_q (absorb t) = a # q" by simp
    with Cons True ss show ?thesis
      by (simp add: checkpoint_answer_eq stage_rel_def same_shared_def)
  qed
qed

lemma inter_file_delay_rel:
  assumes "same_shared s t"
    and "active_after e idx = active_after e' idx"
    and "reconnect_after_ok e idx = reconnect_after_ok e' idx"
  shows "stage_rel (inter_file_delay e dly tot idx s) (inter_file_delay e' dly tot idx t) s t"
proof -
  from assms(1) have ab: "same_shared (absorb s) (absorb t)" by (rule same_shared_absorb)
  then have fl: "stop_flag (absorb s) = stop_flag (absorb t)" by (rule same_shared_flag)
  show ?thesis
  proof (cases "dly \<noteq> 0 \<and> idx < tot")
    case False
    with assms(1) show ?thesis by (auto simp: inter_file_delay_def stage_rel_def)
  next
    case c: True
    show ?thesis
    proof (cases "stop_flag (absorb s)")
      case True
      with c fl ab show ?thesis by (auto simp: inter_file_delay_def stage_rel_def)
    next
      case False
      let ?a = "sleep dly ''Next upload in'' (int idx + 1) (absorb s)"
      let ?b = "sleep dly ''Next upload in'' (int idx + 1) (absorb t)"
      from sleep_loop_rel [OF ab, of "''Next upload in''" "int idx + 1" "nat dly"]
      obtain evs where
        r: "fst ?a = fst ?b" "same_shared (snd ?a) (snd ?b)"
           "out (snd ?a) = out s @ evs" "out (snd ?b) = out t @ evs"
        by (auto simp: stage_rel_def sleep_def)
      obtain oka sa where a: "?a = (oka, sa)" by fastforce
      obtain okb sb where b: "?b = (okb, sb)" by fastforce
      from r a b have ok: "oka = okb" and ss: "same_shared sa sb"
        and oa: "out sa = out s @ evs" and ob: "out sb = out t @ evs" by simp_all
      from c False fl a b ok ss oa ob assms(2,3) show ?thesis
        by (cases okb) (auto simp: inter_file_delay_def stage_rel_def Let_def)
    qed
  qed
qed

lemma waiting_delay: "waiting_event ev \<Longrightarrow> delay_event ev"
  by (cases ev) simp_all

lemma inter_file_delay_events:
  assumes "inter_file_delay e dly tot idx s = (k, s')"
  shows "\<exists>evs. out s' = out s @ evs \<and> list_all delay_event evs"
proof (cases "dly \<noteq> 0 \<and> idx < tot \<and> \<not> stop_flag (absorb s)")
  case False
  with assms show ?thesis by (auto simp: inter_file_delay_def Let_def split: if_splits)
next
  case True
  obtain ok2 s2 where sl: "sleep dly ''Next upload in'' (int idx + 1) (absorb s) = (ok2, s2)"
    by fastforce
  from sleep_out [OF sl] obtain evs where
    evs: "out s2 = out s @ evs" "list_all waiting_event evs" by auto
  from evs(2) have "list_all delay_event evs" by (rule list_all_mono) (rule waiting_delay)
  with assms True sl evs(1) show ?thesis
    by (auto simp: inter_file_delay_def Let_def split: if_splits bool.splits)
qed

lemma delay_no_confirm: "list_all delay_event evs \<Longrightarrow> Confirm \<notin> set evs"
  by (auto simp: list_all_iff)

lemma checkpoint_confirm:
  assumes "checkpoint tc idx s = (k, s')"
  shows "\<exists>evs. out s' = out s @ evs \<and> (Confirm \<in> set evs \<longleftrightarrow> tc \<noteq> 0 \<and> int idx = tc)
           \<and> (k = Next \<or> (tc \<noteq> 0 \<and> int idx = tc))"
  using assms by (auto simp: checkpoint_def Let_def split: if_splits list.splits)

lemma iteration_stopped:
  "stop_flag (absorb s) \<Longrightarrow>
   iteration e rdir dly tc tot idx fpath s = (Break, emit (Log StoppedByUser) (absorb s))"
  by (simp add: iteration_def Let_def)

lemma iteration_upload_break:
  "\<not> stop_flag (absorb s) \<Longrightarrow> upload_file e rdir tot idx fpath (absorb s) = (k, s2) \<Longrightarrow>
   k \<noteq> Next \<Longrightarrow> iteration e rdir dly tc tot idx fpath s = (k, s2)"
  by (cases k) (simp_all add: iteration_def Let_def)

lemma iteration_after_upload:
  "\<not> stop_flag (absorb s) \<Longrightarrow> upload_file e rdir tot idx fpath (absorb s) = (Next, s2) \<Longrightarrow>
   iteration e rdir dly tc tot idx fpath s =
     (case checkpoint tc idx s2 of
        (Next, s3) \<Rightarrow> inter_file_delay e dly tot idx s3
      | r \<Rightarrow> r)"
  by (simp add: iteration_def Let_def)

lemma after_upload_rel:
  assumes "same_shared s t"
    and "active_after e idx = active_after e' idx"
    and "reconnect_after_ok e idx = reconnect_after_ok e' idx"
  shows "stage_rel
           (case checkpoint tc idx s of (Next, s3) \<Rightarrow> inter_file_delay e dly tot idx s3 | r \<Rightarrow> r)
           (case checkpoint tc idx t of (Next, s3) \<Rightarrow> inter_file_delay e' dly tot idx s3 | r \<Rightarrow> r)
           s t
       \<and> (\<forall>evs. out (snd (case checkpoint tc idx s of
                            (Next, s3) \<Rightarrow> inter_file_delay e dly tot idx s3 | r \<Rightarrow> r)) = out s @ evs
            \<longrightarrow> (Confirm \<in> set evs \<longleftrightarrow> tc \<noteq> 0 \<and> int idx = tc))"
proof -
  obtain k1 s1 where c1: "checkpoint tc idx s = (k1, s1)" by fastforce
  obtain k2 t1 where c2: "checkpoint tc idx t = (k2, t1)" by fastforce
  from checkpoint_rel [OF assms(1), of tc idx] c1 c2 obtain ev2 where
    r: "k1 = k2" "same_shared s1 t1" "out s1 = out s @ ev2" "out t1 = out t @ ev2"
    by (auto simp: stage_rel_def)
  from checkpoint_confirm [OF c1] r(3) have cf: "Confirm \<in> set ev2 \<longleftrightarrow> tc \<noteq> 0 \<and> int idx = tc"
    by auto
  show ?thesis
  proof (cases "k1 = Next")
    case False
    with c1 c2 r cf show ?thesis by (cases k1) (auto simp: stage_rel_def)
  next
    case True
    obtain k3 s3 where d1: "inter_file_delay e dly tot idx s1 = (k3, s3)" by fastforce
    obtain k4 t3 where d2: "inter_file_delay e' dly tot idx t1 = (k4, t3)" by fastforce
    from inter_file_delay_rel [OF r(2) assms(2,3), of dly tot] d1 d2 obtain ev3 where
      q: "k3 = k4" "same_shared s3 t3" "out s3 = out s1 @ ev3" "out t3 = out t1 @ ev3"
      by (auto simp: stage_rel_def)
    from inter_file_delay_events [OF d1] q(3) have "list_all delay_event ev3" by auto
    then have "Confirm \<notin> set ev3" by (rule delay_no_confirm)
    with True c1 c2 r d1 d2 q cf show ?thesis by (auto simp: stage_rel_def)
  qed
qed

lemma upload_file_missing:
  "\<not> file_exists e idx \<Longrightarrow>
   upload_file e rdir tot idx fpath s =
     (Next, emit (Log (Skip idx tot (basename fpath))) (emit (ExistsCall fpath) s))"
  by (simp add: upload_file_def Let_def)

lemma upload_file_shared: "same_shared (snd (upload_file e rdir tot idx fpath s)) s"
  by (auto simp: upload_file_def Let_def split: if_splits)

lemma same_shared_sym: "same_shared s t \<Longrightarrow> same_shared t s"
  by (simp add: same_shared_def)

lemma same_shared_trans: "same_shared s t \<Longrightarrow> same_shared t u \<Longrightarrow> same_shared s u"
  by (simp add: same_shared_def)

subsection \<open>Files visited, and why the loop breaks\<close>

lemma delay_not_exists: "list_all delay_event evs \<Longrightarrow> filter is_exists evs = []"
proof (induction evs)
  case Nil
  show ?case by simp
next
  case (Cons ev evs)
  then show ?case by (cases ev rule: delay_event.cases) auto
qed

lemma upload_file_visit:
  assumes "upload_file e rdir tot idx fpath s = (k, s')"
  shows "\<exists>evs. out s' = out s @ evs \<and> filter is_exists evs = [ExistsCall fpath]"
  using assms by (auto simp: upload_file_def Let_def split: if_splits)

lemma checkpoint_visit:
  assumes "checkpoint tc idx s = (k, s')"
  shows "\<exists>evs. out s' = out s @ evs \<and> filter is_exists evs = []"
  using assms by (auto simp: checkpoint_def Let_def split: if_splits list.splits)

lemma iteration_visit:
  assumes "iteration e rdir dly tc tot idx fpath s = (Next, s')"
  shows "\<exists>evs. out s' = out s @ evs \<and> filter is_exists evs = [ExistsCall fpath]"
proof -
  have ns: "\<not> stop_flag (absorb s)"
    using assms by (auto simp: iteration_def Let_def split: if_splits)
  obtain k1 s1 where u: "upload_file e rdir tot idx fpath (absorb s) = (k1, s1)" by fastforce
  have k1: "k1 = Next"
    using assms ns u iteration_upload_break [OF ns u] by (cases k1) auto
  obtain k2 s2 where c: "checkpoint tc idx s1 = (k2, s2)" by fastforce
  from assms ns u k1 c have it: "(case (k2, s2) of (Next, s3) \<Rightarrow> inter_file_delay e dly tot idx s3
      | r \<Rightarrow> r) = (Next, s')"
    using iteration_after_upload [of s e rdir tot idx fpath s1 dly tc] by simp
  then have k2: "k2 = Next" by (cases k2) auto
  with it have d: "inter_file_delay e dly tot idx s2 = (Next, s')" by simp
  from upload_file_visit [OF u] obtain ev1 where
    ev1: "out s1 = out s @ ev1" "filter is_exists ev1 = [ExistsCall fpath]" by auto
  from checkpoint_visit [OF c] obtain ev2 where
    ev2: "out s2 = out s1 @ ev2" "filter is_exists ev2 = []" by auto
  from inter_file_delay_events [OF d] obtain ev3 where
    ev3: "out s' = out s2 @ ev3" "list_all delay_event ev3" by auto
  from ev3(2) have "filter is_exists ev3 = []" by (rule delay_not_exists)
  with ev1 ev2 ev3(1) show ?thesis by (intro exI [of _ "ev1 @ ev2 @ ev3"]) simp
qed

lemma upload_loop_visit:
  assumes "upload_loop e rdir dly tc tot idx files s = (Next, s')"
  shows "\<exists>evs. out s' = out s @ evs \<and> filter is_exists evs = map ExistsCall files"
  using assms
proof (induction files arbitrary: idx s)
  case Nil
  then show ?case by simp
next
  case (Cons f fs)
  obtain k1 s1 where it: "iteration e rdir dly tc tot idx f s = (k1, s1)" by fastforce
  with Cons.prems have k1: "k1 = Next" by (cases k1) auto
  with Cons.prems it have lp: "upload_loop e rdir dly tc tot (Suc idx) fs s1 = (Next, s')" by simp
  from it k1 have "iteration e rdir dly tc tot idx f s = (Next, s1)" by simp
  from iteration_visit [OF this] obtain ev1 where
    ev1: "out s1 = out s @ ev1" "filter is_exists ev1 = [ExistsCall f]" by auto
  from Cons.IH [OF lp] obtain ev2 where
    ev2: "out s' = out s1 @ ev2" "filter is_exists ev2 = map ExistsCall fs" by auto
  from ev1 ev2 show ?case by (intro exI [of _ "ev1 @ ev2"]) simp
qed

lemma sleep_loop_false_flag:
  "\<not> fst (sleep_loop p l n s) \<Longrightarrow> stop_flag (snd (sleep_loop p l n s))"
proof (induction n arbitrary: s)
  case 0
  then show ?case by simp
next
  case (Suc n)
  show ?case
  proof (cases "stop_flag (absorb s)")
    case True
    then show ?thesis by simp
  next
    case False
    let ?s3 = "emit Wait1 (absorb (if p \<noteq> [] then emit (Timer (Countdown p (int (Suc n) div 60)
                 (int (Suc n) mod 60) (if l \<noteq> 0 then Some l else None))) (absorb s) else absorb s))"
    have st: "sleep_loop p l (Suc n) s = sleep_loop p l n ?s3"
      using False by (simp add: Let_def)
    with Suc.prems have "\<not> fst (sleep_loop p l n ?s3)" by simp
    from Suc.IH [OF this] show ?thesis unfolding st .
  qed
qed

lemma inter_file_delay_break_cause:
  assumes "inter_file_delay e dly tot idx s = (Break, s')"
  shows "stop_flag s' \<or> last (out s') = Log ReconnectFailed"
proof -
  from assms have c: "dly \<noteq> 0 \<and> idx < tot \<and> \<not> stop_flag (absorb s)"
    by (auto simp: inter_file_delay_def Let_def split: if_splits)
  obtain ok2 s2 where sl: "sleep dly ''Next upload in'' (int idx + 1) (absorb s) = (ok2, s2)"
    by fastforce
  show ?thesis
  proof (cases ok2)
    case False
    with assms c sl have "s' = s2" by (simp add: inter_file_delay_def)
    moreover from False sl sleep_loop_false_flag [of "''Next upload in''" "int idx + 1" "nat dly" "absorb s"]
    have "stop_flag s2" by (simp add: sleep_def)
    ultimately show ?thesis by simp
  next
    case True
    with assms c sl show ?thesis
      by (auto simp: inter_file_delay_def Let_def split: if_splits)
  qed
qed

lemma iteration_break_cause:
  assumes "iteration e rdir dly tc tot idx fpath s = (Break, s')"
  shows "stop_flag s' \<or> last (out s') = Log ReconnectFailed \<or> last (out s') = Log StoppedAfterTest"
proof (cases "stop_flag (absorb s)")
  case True
  with assms show ?thesis by (auto simp: iteration_stopped)
next
  case ns: False
  obtain k1 s1 where u: "upload_file e rdir tot idx fpath (absorb s) = (k1, s1)" by fastforce
  show ?thesis
  proof (cases "k1 = Next")
    case False
    from iteration_upload_break [OF ns u False] assms have "k1 = Break" "s' = s1" by simp_all
    with u show ?thesis by (auto simp: upload_file_def Let_def split: if_splits)
  next
    case True
    obtain k2 s2 where c: "checkpoint tc idx s1 = (k2, s2)" by fastforce
    from assms ns u True c have it: "(case (k2, s2) of (Next, s3) \<Rightarrow> inter_file_delay e dly tot idx s3
        | r \<Rightarrow> r) = (Break, s')"
      using iteration_after_upload [of s e rdir tot idx fpath s1 dly tc] by simp
    show ?thesis
    proof (cases k2)
      case Next
      with it have "inter_file_delay e dly tot idx s2 = (Break, s')" by simp
      from inter_file_delay_break_cause [OF this] show ?thesis by blast
    next
      case Break
      with it c have "checkpoint tc idx s1 = (Break, s')" by simp
      then show ?thesis by (auto simp: checkpoint_def Let_def split: if_splits list.splits)
    next
      case Block
      with it show ?thesis by simp
    qed
  qed
qed

lemma upload_loop_break_cause:
  assumes "upload_loop e rdir dly tc tot idx files s = (Break, s')"
  shows "stop_flag s' \<or> last (out s') = Log ReconnectFailed \<or> last (out s') = Log StoppedAfterTest"
  using assms
proof (induction files arbitrary: idx s)
  case Nil
  then show ?case by simp
next
  case (Cons f fs)
  obtain k1 s1 where it: "iteration e rdir dly tc tot idx f s = (k1, s1)" by fastforce
  show ?case
  proof (cases k1)
    case Next
    with Cons.prems it have "upload_loop e rdir dly tc tot (Suc idx) fs s1 = (Break, s')" by simp
    from Cons.IH [OF this] show ?thesis .
  next
    case Break
    with Cons.prems it have "iteration e rdir dly tc tot idx f s = (Break, s')" by simp
    from iteration_break_cause [OF this] show ?thesis .
  next
    case Block
    with Cons.prems it show ?thesis by simp
  qed
qed

lemma start_not_exists: "list_all start_event evs \<Longrightarrow> filter is_exists evs = []"
proof (induction evs)
  case Nil
  show ?case by simp
next
  case (Cons ev evs)
  then show ?case by (cases ev rule: start_event.cases) auto
qed

subsection \<open>The place of the confirmation request\<close>

lemma clean_Nil [simp]: "clean k []"
  by (simp add: clean_def)

lemma clean_append [simp]: "clean k (xs @ ys) \<longleftrightarrow> clean k xs \<and> clean k ys"
  by (auto simp: clean_def)

lemma clean_Cons [simp]: "clean k (x # xs) \<longleftrightarrow> x \<noteq> Confirm \<and> \<not> upload_end k x \<and> clean k xs"
  by (auto simp: clean_def)

lemma delay_clean: "list_all delay_event evs \<Longrightarrow> clean k evs"
proof (induction evs)
  case Nil
  show ?case by simp
next
  case (Cons ev evs)
  then show ?case by (cases ev rule: delay_event.cases) auto
qed

lemma upload_file_shape:
  assumes "upload_file e rdir tot idx fpath s = (c, s')"
  shows "\<exists>pre. clean k pre \<and>
           ((c = Break \<and> out s' = out s @ pre)
          \<or> (c = Next \<and> (\<exists>ev. out s' = out s @ pre @ [ev] \<and> ev \<noteq> Confirm
                              \<and> upload_end k ev = (idx = k))))"
proof (cases "file_exists e idx")
  case False
  with assms have "c = Next" "out s' = out s @ [ExistsCall fpath] @ [Log (Skip idx tot (basename fpath))]"
    by (auto simp: upload_file_def Let_def)
  then show ?thesis by (intro exI [of _ "[ExistsCall fpath]"]) auto
next
  case ex: True
  show ?thesis
  proof (cases "active_before e idx \<or> reconnect_ok e idx")
    case False
    with ex assms have "c = Break"
      "out s' = out s @ [ExistsCall fpath, IsActiveCall, Log ConnectionLost, ConnectCall, Log ReconnectFailed]"
      by (auto simp: upload_file_def Let_def)
    then show ?thesis
      by (intro exI [of _ "[ExistsCall fpath, IsActiveCall, Log ConnectionLost, ConnectCall, Log ReconnectFailed]"]) auto
  next
    case True
    let ?fn = "basename fpath"
    let ?rp = "if rdir \<noteq> [] then rdir @ ''/'' @ ?fn else ?fn"
    let ?res = "Log (if put_ok e idx then UploadDone idx tot else UploadError idx tot)"
    let ?re = "if active_before e idx then [] else [Log ConnectionLost, ConnectCall, Log Reconnected]"
    let ?pre = "[ExistsCall fpath, IsActiveCall] @ ?re @ [Log (Uploading idx tot ?fn ?rp), PutCall fpath ?rp]"
    from True ex assms have "c = Next" "out s' = out s @ ?pre @ [?res]"
      by (auto simp: upload_file_def Let_def split: if_splits)
    moreover have "clean k ?pre" by simp
    moreover have "?res \<noteq> Confirm \<and> upload_end k ?res = (idx = k)" by simp
    ultimately show ?thesis by blast
  qed
qed

lemma iteration_other:
  assumes "iteration e rdir dly (int k) tot idx fpath s = (c, s')" and "idx \<noteq> k"
  shows "c \<noteq> Block \<and> (\<exists>evs. out s' = out s @ evs \<and> clean k evs)"
proof (cases "stop_flag (absorb s)")
  case True
  with assms show ?thesis by (auto simp: iteration_stopped)
next
  case ns: False
  obtain k1 s1 where u: "upload_file e rdir tot idx fpath (absorb s) = (k1, s1)" by fastforce
  from upload_file_shape [OF u, of k] assms(2) obtain ev1 where
    ev1: "out s1 = out s @ ev1" "clean k ev1" "k1 = Break \<or> k1 = Next" by auto
  show ?thesis
  proof (cases "k1 = Next")
    case False
    from iteration_upload_break [OF ns u False] assms(1) have "c = k1" "s' = s1" by simp_all
    with ev1 False show ?thesis by auto
  next
    case True
    from assms(2) have sk: "checkpoint (int k) idx s1 = (Next, s1)" by (simp add: checkpoint_skip)
    from assms(1) ns u True sk have d: "inter_file_delay e dly tot idx s1 = (c, s')"
      using iteration_after_upload [of s e rdir tot idx fpath s1 dly "int k"] by simp
    from inter_file_delay_events [OF d] obtain ev3 where
      ev3: "out s' = out s1 @ ev3" "list_all delay_event ev3" by auto
    from ev3(2) have "clean k ev3" by (rule delay_clean)
    moreover from d inter_file_delay_no_block [of e dly tot idx s1] have "c \<noteq> Block" by simp
    ultimately show ?thesis using ev1 ev3(1) by (intro conjI exI [of _ "ev1 @ ev3"]) simp_all
  qed
qed

lemma iteration_at:
  assumes "iteration e rdir dly (int k) tot k fpath s = (c, s')" and "0 < k"
  shows "\<exists>evs. out s' = out s @ evs \<and> ((clean k evs \<and> c = Break) \<or> confirmed_shape k c evs)"
proof (cases "stop_flag (absorb s)")
  case True
  with assms show ?thesis by (auto simp: iteration_stopped)
next
  case ns: False
  obtain k1 s1 where u: "upload_file e rdir tot k fpath (absorb s) = (k1, s1)" by fastforce
  from upload_file_shape [OF u, of k] obtain pre where pre: "clean k pre"
    and sh: "(k1 = Break \<and> out s1 = out s @ pre)
          \<or> (k1 = Next \<and> (\<exists>ev. out s1 = out s @ pre @ [ev] \<and> ev \<noteq> Confirm \<and> upload_end k ev))"
    by auto
  show ?thesis
  proof (cases "k1 = Next")
    case False
    from iteration_upload_break [OF ns u False] assms(1) have "c = k1" "s' = s1" by simp_all
    with sh pre False show ?thesis by auto
  next
    case True
    with sh obtain ev where ev: "out s1 = out s @ pre @ [ev]" "upload_end k ev" by auto
    have it: "iteration e rdir dly (int k) tot k fpath s =
        (case checkpoint (int k) k s1 of (Next, s3) \<Rightarrow> inter_file_delay e dly tot k s3 | r \<Rightarrow> r)"
      using iteration_after_upload [OF ns] u True by simp
    have tk: "int k \<noteq> 0" using assms(2) by simp
    show ?thesis
    proof (cases "reply_q (absorb s1)")
      case Nil
      from checkpoint_block_eq [OF tk refl Nil] it assms(1)
      have "c = Block" "s' = emit Confirm (emit (Log (TestBatchDone (int k))) (absorb s1))" by simp_all
      with ev have "out s' = out s @ pre @ ev # Log (TestBatchDone (int k)) # Confirm # []"
        by simp
      moreover from ev pre \<open>c = Block\<close>
      have "confirmed_shape k c (pre @ ev # Log (TestBatchDone (int k)) # Confirm # [])"
        unfolding confirmed_shape_def
        by (intro exI [of _ pre] exI [of _ ev] exI [of _ "[]"]) simp
      ultimately show ?thesis by blast
    next
      case (Cons a q)
      note ck = checkpoint_answer_eq [OF tk refl Cons]
      show ?thesis
      proof (cases a)
        case False
        with ck it assms(1) have "c = Break"
          "s' = emit (Log StoppedAfterTest) (emit Confirm (emit (Log (TestBatchDone (int k)))
                  ((absorb s1)\<lparr>reply_q := q\<rparr>)))" by simp_all
        with ev have "out s' = out s @ pre @ ev # Log (TestBatchDone (int k)) # Confirm # [Log StoppedAfterTest]"
          by simp
        moreover from ev pre \<open>c = Break\<close>
        have "confirmed_shape k c (pre @ ev # Log (TestBatchDone (int k)) # Confirm # [Log StoppedAfterTest])"
          unfolding confirmed_shape_def
          by (intro exI [of _ pre] exI [of _ ev] exI [of _ "[Log StoppedAfterTest]"]) simp
        ultimately show ?thesis by blast
      next
        case True
        let ?s3 = "emit (Log Continuing) (emit Confirm (emit (Log (TestBatchDone (int k)))
                  ((absorb s1)\<lparr>reply_q := q\<rparr>)))"
        from True ck it assms(1) have d: "inter_file_delay e dly tot k ?s3 = (c, s')" by simp
        from inter_file_delay_events [OF d] obtain ev3 where
          ev3: "out s' = out ?s3 @ ev3" "list_all delay_event ev3" by auto
        from ev3(2) have c3: "clean k ev3" by (rule delay_clean)
        from d inter_file_delay_no_block [of e dly tot k ?s3] have nb: "c \<noteq> Block" by simp
        from ev3(1) ev have "out s' = out s @ pre @ ev # Log (TestBatchDone (int k)) # Confirm # (Log Continuing # ev3)"
          by simp
        moreover from ev pre c3 nb
        have "confirmed_shape k c (pre @ ev # Log (TestBatchDone (int k)) # Confirm # (Log Continuing # ev3))"
          unfolding confirmed_shape_def
          by (intro exI [of _ pre] exI [of _ ev] exI [of _ "Log Continuing # ev3"]) simp
        ultimately show ?thesis by blast
      qed
    qed
  qed
qed

lemma confirmed_shape_prepend:
  assumes "clean k e1" and "confirmed_shape k c e2"
  shows "confirmed_shape k c (e1 @ e2)"
proof -
  from assms(2) obtain pre ev post where
    d: "e2 = pre @ ev # Log (TestBatchDone (int k)) # Confirm # post"
       "upload_end k ev" "clean k pre" "clean k post"
       "(post = [] \<and> c = Block) \<or> (post = [Log StoppedAfterTest] \<and> c = Break)
          \<or> (\<exists>post'. post = Log Continuing # post' \<and> c \<noteq> Block)"
    unfolding confirmed_shape_def by blast
  from d(1) have "e1 @ e2 = (e1 @ pre) @ ev # Log (TestBatchDone (int k)) # Confirm # post" by simp
  moreover from assms(1) d(3) have "clean k (e1 @ pre)" by simp
  ultimately show ?thesis unfolding confirmed_shape_def using d(2,4,5) by blast
qed

lemma confirmed_shape_extend:
  assumes "confirmed_shape k Next e1" and "clean k e2" and "c \<noteq> Block"
  shows "confirmed_shape k c (e1 @ e2)"
proof -
  from assms(1) obtain pre ev post' where
    d: "e1 = pre @ ev # Log (TestBatchDone (int k)) # Confirm # Log Continuing # post'"
       "upload_end k ev" "clean k pre" "clean k (Log Continuing # post')"
    unfolding confirmed_shape_def by auto
  from d(1) have "e1 @ e2 = pre @ ev # Log (TestBatchDone (int k)) # Confirm # (Log Continuing # post' @ e2)"
    by simp
  moreover from d(4) assms(2) have "clean k (Log Continuing # post' @ e2)" by simp
  ultimately show ?thesis unfolding confirmed_shape_def using d(2,3) assms(3)
    by (intro exI [of _ pre] exI [of _ ev] exI [of _ "Log Continuing # post' @ e2"]) simp
qed

lemma upload_loop_shape:
  assumes "upload_loop e rdir dly (int k) tot idx files s = (c, s')" and "0 < k"
  shows "\<exists>evs. out s' = out s @ evs \<and>
           (if idx \<le> k \<and> k < idx + length files
            then (clean k evs \<and> c = Break) \<or> confirmed_shape k c evs
            else clean k evs \<and> c \<noteq> Block)"
  using assms(1)
proof (induction files arbitrary: idx s)
  case Nil
  then show ?case by auto
next
  case (Cons f fs)
  obtain k1 s1 where it: "iteration e rdir dly (int k) tot idx f s = (k1, s1)" by fastforce
  show ?case
  proof (cases "idx = k")
    case True
    from it True iteration_at [OF _ assms(2), of e rdir dly tot f s k1 s1] obtain ev1 where
      ev1: "out s1 = out s @ ev1" "(clean k ev1 \<and> k1 = Break) \<or> confirmed_shape k k1 ev1" by auto
    show ?thesis
    proof (cases "k1 = Next")
      case False
      with Cons.prems it have "c = k1" "s' = s1" by (cases k1; simp)+
      with ev1 True show ?thesis by auto
    next
      case n: True
      with Cons.prems it have lp: "upload_loop e rdir dly (int k) tot (Suc idx) fs s1 = (c, s')"
        by simp
      from Cons.IH [OF lp] True obtain ev2 where
        ev2: "out s' = out s1 @ ev2" "clean k ev2" "c \<noteq> Block" by auto
      from ev1(2) n have "confirmed_shape k Next ev1" by auto
      from confirmed_shape_extend [OF this ev2(2,3)] ev1(1) ev2(1) True show ?thesis
        by (intro exI [of _ "ev1 @ ev2"]) simp
    qed
  next
    case False
    from iteration_other [OF it False] obtain ev1 where
      ev1: "out s1 = out s @ ev1" "clean k ev1" "k1 \<noteq> Block" by auto
    show ?thesis
    proof (cases "k1 = Next")
      case nn: False
      with ev1(3) have b: "k1 = Break" by (cases k1) auto
      with Cons.prems it have "c = Break" "s' = s1" by simp_all
      with ev1 show ?thesis by auto
    next
      case n: True
      with Cons.prems it have lp: "upload_loop e rdir dly (int k) tot (Suc idx) fs s1 = (c, s')"
        by simp
      from Cons.IH [OF lp] obtain ev2 where
        ev2: "out s' = out s1 @ ev2"
          "if Suc idx \<le> k \<and> k < Suc idx + length fs
            then (clean k ev2 \<and> c = Break) \<or> confirmed_shape k c ev2
            else clean k ev2 \<and> c \<noteq> Block" by auto
      show ?thesis
      proof (cases "idx \<le> k \<and> k < idx + length (f # fs)")
        case True
        with False have r: "Suc idx \<le> k \<and> k < Suc idx + length fs" by auto
        with ev2(2) have "(clean k ev2 \<and> c = Break) \<or> confirmed_shape k c ev2" by simp
        then have "(clean k (ev1 @ ev2) \<and> c = Break) \<or> confirmed_shape k c (ev1 @ ev2)"
          using ev1(2) confirmed_shape_prepend [OF ev1(2)] by auto
        with True ev1(1) ev2(1) show ?thesis by (intro exI [of _ "ev1 @ ev2"]) simp
      next
        case o: False
        with False have r: "\<not> (Suc idx \<le> k \<and> k < Suc idx + length fs)" by auto
        with ev2(2) have "clean k ev2 \<and> c \<noteq> Block" by simp
        with o ev1 ev2(1) show ?thesis by (intro exI [of _ "ev1 @ ev2"]) auto
      qed
    qed
  qed
qed

lemma start_clean: "list_all start_event evs \<Longrightarrow> clean k evs"
proof (induction evs)
  case Nil
  show ?case by simp
next
  case (Cons ev evs)
  then show ?case by (cases ev rule: start_event.cases) auto
qed

subsection \<open>One stop request more\<close>

lemma sim_out: "sim g s t \<Longrightarrow> out t = out s"
  by (simp add: sim_def)

lemma sim_flag: "sim g s t \<Longrightarrow> stop_flag t = stop_flag s"
  by (simp add: sim_def)

lemma sim_weaken: "sim g s t \<Longrightarrow> sim False s t"
  by (auto simp: sim_def)

lemma sim_emit: "sim g s t \<Longrightarrow> sim g (emit ev s) (emit ev t)"
  by (simp add: sim_def)

lemma simI1:
  "out t = out s \<Longrightarrow> stop_flag t = stop_flag s \<Longrightarrow> (g \<longrightarrow> stop_flag s \<longrightarrow> reply_q s \<noteq> []) \<Longrightarrow>
   pend_rel (stop_flag s) (pending s) (pending t) \<Longrightarrow> (g \<longrightarrow> reply_q t = reply_q s) \<Longrightarrow>
   sim g s t"
  by (simp add: sim_def)

lemma simI2:
  "out t = out s \<Longrightarrow> stop_flag t \<Longrightarrow> stop_flag s \<Longrightarrow> pending t = pending s \<Longrightarrow>
   (g \<longrightarrow> (\<exists>q1 q2. q1 \<noteq> [] \<and> reply_q s = q1 @ q2 \<and> reply_q t = q1 @ False # q2)) \<Longrightarrow>
   sim g s t"
  by (auto simp: sim_def)

lemma reply_of_Stop_mem: "Stop \<in> set xs \<Longrightarrow> map reply_of xs \<noteq> []"
  by (cases xs) auto

lemma sim_absorb:
  assumes "sim g s t"
  shows "sim g (absorb s) (absorb t)"
proof -
  from assms have o: "out t = out s" and fl: "stop_flag t = stop_flag s"
    and inv: "g \<longrightarrow> stop_flag s \<longrightarrow> reply_q s \<noteq> []" by (simp_all add: sim_def)
  from assms consider
    (a) "pend_rel (stop_flag s) (pending s) (pending t)" "g \<longrightarrow> reply_q t = reply_q s"
  | (b) "stop_flag s" "pending t = pending s"
        "g \<longrightarrow> (\<exists>q1 q2. q1 \<noteq> [] \<and> reply_q s = q1 @ q2 \<and> reply_q t = q1 @ False # q2)"
    by (auto simp: sim_def)
  then show ?thesis
  proof cases
    case a
    from a(1) obtain pre xs ys post where
      p: "pending s = pre @ (xs @ ys) # post" "pending t = pre @ (xs @ Stop # ys) # post"
         "stop_flag s \<or> Stop \<in> set (concat pre @ xs)"
      unfolding pend_rel_def by blast
    show ?thesis
    proof (cases pre)
      case Nil
      with p have ps: "pending s = (xs @ ys) # post" and pt: "pending t = (xs @ Stop # ys) # post"
        and c: "stop_flag s \<or> Stop \<in> set xs" by simp_all
      have f1: "stop_flag (absorb s)" using ps c by (auto simp: absorb_flag)
      have f2: "stop_flag (absorb t)" using pt by (simp add: absorb_flag)
      have r1: "reply_q (absorb s) = (reply_q s @ map reply_of xs) @ map reply_of ys"
        using ps by (simp add: absorb_reply)
      have r2: "g \<longrightarrow> reply_q (absorb t) = (reply_q s @ map reply_of xs) @ False # map reply_of ys"
        using pt a(2) by (simp add: absorb_reply)
      have ne: "g \<longrightarrow> reply_q s @ map reply_of xs \<noteq> []"
        using c inv reply_of_Stop_mem [of xs] by auto
      have pe: "pending (absorb t) = pending (absorb s)" using ps pt by simp
      have ex: "g \<longrightarrow> (\<exists>q1 q2. q1 \<noteq> [] \<and> reply_q (absorb s) = q1 @ q2
                    \<and> reply_q (absorb t) = q1 @ False # q2)"
        using r1 r2 ne by blast
      from o have "out (absorb t) = out (absorb s)" by simp
      from this f2 f1 pe ex show ?thesis by (rule simI2)
    next
      case (Cons b pre')
      with p have ps: "pending s = b # pre' @ (xs @ ys) # post"
        and pt: "pending t = b # pre' @ (xs @ Stop # ys) # post"
        and c: "stop_flag s \<or> Stop \<in> set b \<or> Stop \<in> set (concat pre' @ xs)" by auto
      have f1: "stop_flag (absorb s) = (stop_flag s \<or> Stop \<in> set b)" using ps by (simp add: absorb_flag)
      have f2: "stop_flag (absorb t) = (stop_flag s \<or> Stop \<in> set b)" using pt fl by (simp add: absorb_flag)
      have r1: "reply_q (absorb s) = reply_q s @ map reply_of b" using ps by (simp add: absorb_reply)
      have r2: "g \<longrightarrow> reply_q (absorb t) = reply_q s @ map reply_of b"
        using pt a(2) by (simp add: absorb_reply)
      have pr: "pend_rel (stop_flag (absorb s)) (pending (absorb s)) (pending (absorb t))"
        unfolding pend_rel_def using ps pt c f1
        by (intro exI [of _ pre'] exI [of _ xs] exI [of _ ys] exI [of _ post]) auto
      have iv: "g \<longrightarrow> stop_flag (absorb s) \<longrightarrow> reply_q (absorb s) \<noteq> []"
        using f1 r1 inv reply_of_Stop_mem [of b] by auto
      from o have oa: "out (absorb t) = out (absorb s)" by simp
      from f1 f2 have fa: "stop_flag (absorb t) = stop_flag (absorb s)" by simp
      from r1 r2 have ra: "g \<longrightarrow> reply_q (absorb t) = reply_q (absorb s)" by simp
      from oa fa iv pr ra show ?thesis by (rule simI1)
    qed
  next
    case b
    have f1: "stop_flag (absorb s)" using b(1) by (simp add: absorb_flag)
    have f2: "stop_flag (absorb t)" using b(1) fl by (simp add: absorb_flag)
    have pe: "pending (absorb t) = pending (absorb s)" using b(2) by simp
    let ?m = "case pending s of [] \<Rightarrow> [] | b # bs \<Rightarrow> map reply_of b"
    have r1: "reply_q (absorb s) = reply_q s @ ?m" by (simp add: absorb_reply)
    have r2: "reply_q (absorb t) = reply_q t @ ?m" using b(2) by (simp add: absorb_reply)
    have q: "g \<longrightarrow> (\<exists>q1 q2. q1 \<noteq> [] \<and> reply_q (absorb s) = q1 @ q2 \<and> reply_q (absorb t) = q1 @ False # q2)"
    proof
      assume g
      with b(3) obtain q1 q2 where "q1 \<noteq> []" "reply_q s = q1 @ q2" "reply_q t = q1 @ False # q2"
        by blast
      with r1 r2 have "q1 \<noteq> [] \<and> reply_q (absorb s) = q1 @ (q2 @ ?m)
          \<and> reply_q (absorb t) = q1 @ False # (q2 @ ?m)" by simp
      then show "\<exists>q1 q2. q1 \<noteq> [] \<and> reply_q (absorb s) = q1 @ q2 \<and> reply_q (absorb t) = q1 @ False # q2"
        by blast
    qed
    from o have "out (absorb t) = out (absorb s)" by simp
    from this f2 f1 pe q show ?thesis by (rule simI2)
  qed
qed

lemma sim_mono: "sim g s t \<Longrightarrow> (g' \<longrightarrow> g) \<Longrightarrow> sim g' s t"
  by (cases g; cases g') (auto simp: sim_def)

lemma sim_reply_update: "sim g s t \<Longrightarrow> sim False (s\<lparr>reply_q := q\<rparr>) (t\<lparr>reply_q := q'\<rparr>)"
  by (auto simp: sim_def)

lemma sim_head:
  assumes "sim True s t"
  shows "(reply_q s = [] \<and> reply_q t = []) \<or> (\<exists>a q q'. reply_q s = a # q \<and> reply_q t = a # q')"
proof -
  from assms consider (a) "reply_q t = reply_q s"
    | (b) "\<exists>q1 q2. q1 \<noteq> [] \<and> reply_q s = q1 @ q2 \<and> reply_q t = q1 @ False # q2"
    by (auto simp: sim_def)
  then show ?thesis
  proof cases
    case a
    then show ?thesis by (cases "reply_q s") auto
  next
    case b
    then obtain q1 q2 where "q1 \<noteq> []" "reply_q s = q1 @ q2" "reply_q t = q1 @ False # q2" by blast
    then show ?thesis by (cases q1) auto
  qed
qed

lemma sleep_loop_sim:
  assumes "sim g s t"
  shows "stage_sim g (sleep_loop p l n s) (sleep_loop p l n t)"
  using assms
proof (induction n arbitrary: s t)
  case 0
  then show ?case by (auto simp: stage_sim_def intro: sim_emit)
next
  case (Suc n)
  from Suc.prems have ab: "sim g (absorb s) (absorb t)" by (rule sim_absorb)
  then have fl: "stop_flag (absorb t) = stop_flag (absorb s)" by (rule sim_flag)
  show ?case
  proof (cases "stop_flag (absorb s)")
    case True
    with fl ab show ?thesis by (simp add: stage_sim_def)
  next
    case False
    let ?f = "\<lambda>u. emit Wait1 (absorb (if p \<noteq> [] then emit (Timer (Countdown p (int (Suc n) div 60)
                 (int (Suc n) mod 60) (if l \<noteq> 0 then Some l else None))) (absorb u) else absorb u))"
    have st: "sleep_loop p l (Suc n) s = sleep_loop p l n (?f s)"
             "sleep_loop p l (Suc n) t = sleep_loop p l n (?f t)"
      using False fl by (simp_all add: Let_def)
    have "sim g (?f s) (?f t)" using ab by (auto intro!: sim_emit sim_absorb)
    from Suc.IH [OF this] show ?thesis unfolding st .
  qed
qed

lemma upload_file_sim:
  assumes "sim g s t"
  shows "stage_sim g (upload_file e rdir tot idx fpath s) (upload_file e rdir tot idx fpath t)"
  using assms by (auto simp: upload_file_def Let_def stage_sim_def intro!: sim_emit)

lemma checkpoint_sim:
  assumes "sim True s t"
  shows "stage_sim False (checkpoint tc idx s) (checkpoint tc idx t)"
proof (cases "tc \<noteq> 0 \<and> int idx = tc")
  case False
  with assms show ?thesis by (auto simp: checkpoint_skip stage_sim_def intro: sim_weaken)
next
  case True
  from assms have ab: "sim True (absorb s) (absorb t)" by (rule sim_absorb)
  let ?m = "emit Confirm \<circ> emit (Log (TestBatchDone tc))"
  from sim_head [OF ab] show ?thesis
  proof (elim disjE conjE exE)
    assume e: "reply_q (absorb s) = []" "reply_q (absorb t) = []"
    from ab have "sim False (absorb s) (absorb t)" by (rule sim_weaken)
    with True e show ?thesis
      by (simp add: checkpoint_block_eq stage_sim_def sim_emit)
  next
    fix a q q'
    assume e: "reply_q (absorb s) = a # q" "reply_q (absorb t) = a # q'"
    from ab have "sim False ((absorb s)\<lparr>reply_q := q\<rparr>) ((absorb t)\<lparr>reply_q := q'\<rparr>)"
      by (rule sim_reply_update)
    with True e show ?thesis
      by (simp add: checkpoint_answer_eq stage_sim_def sim_emit)
  qed
qed

lemma inter_file_delay_sim:
  assumes "sim g s t"
  shows "stage_sim g (inter_file_delay e dly tot idx s) (inter_file_delay e dly tot idx t)"
proof -
  from assms have ab: "sim g (absorb s) (absorb t)" by (rule sim_absorb)
  then have fl: "stop_flag (absorb t) = stop_flag (absorb s)" by (rule sim_flag)
  show ?thesis
  proof (cases "dly \<noteq> 0 \<and> idx < tot")
    case False
    with assms show ?thesis by (auto simp: inter_file_delay_def stage_sim_def)
  next
    case c: True
    show ?thesis
    proof (cases "stop_flag (absorb s)")
      case True
      with c fl ab show ?thesis by (auto simp: inter_file_delay_def stage_sim_def)
    next
      case False
      let ?a = "sleep dly ''Next upload in'' (int idx + 1) (absorb s)"
      let ?b = "sleep dly ''Next upload in'' (int idx + 1) (absorb t)"
      from sleep_loop_sim [OF ab, of "''Next upload in''" "int idx + 1" "nat dly"]
      have r: "fst ?b = fst ?a" "sim g (snd ?a) (snd ?b)"
        by (auto simp: stage_sim_def sleep_def)
      obtain oka sa where a: "?a = (oka, sa)" by fastforce
      obtain okb sb where b: "?b = (okb, sb)" by fastforce
      from r a b have ok: "okb = oka" and ss: "sim g sa sb" by simp_all
      from c False fl a b ok ss show ?thesis
        by (cases oka) (auto simp: inter_file_delay_def stage_sim_def Let_def intro!: sim_emit)
    qed
  qed
qed

lemma iteration_sim:
  assumes "sim (int idx \<le> tc) s t"
  shows "stage_sim (int idx < tc) (iteration e rdir dly tc tot idx fpath s)
                                  (iteration e rdir dly tc tot idx fpath t)"
proof -
  let ?g = "int idx \<le> tc" and ?g' = "int idx < tc"
  from assms have ab: "sim ?g (absorb s) (absorb t)" by (rule sim_absorb)
  then have fl: "stop_flag (absorb t) = stop_flag (absorb s)" by (rule sim_flag)
  show ?thesis
  proof (cases "stop_flag (absorb s)")
    case True
    from ab have "sim ?g' (absorb s) (absorb t)" by (rule sim_mono) simp
    with True fl show ?thesis by (simp add: iteration_stopped stage_sim_def sim_emit)
  next
    case ns: False
    with fl have nt: "\<not> stop_flag (absorb t)" by simp
    obtain k1 s1 where u1: "upload_file e rdir tot idx fpath (absorb s) = (k1, s1)" by fastforce
    obtain k2 t1 where u2: "upload_file e rdir tot idx fpath (absorb t) = (k2, t1)" by fastforce
    from upload_file_sim [OF ab, of e rdir tot idx fpath] u1 u2
    have k: "k2 = k1" and s1: "sim ?g s1 t1" by (simp_all add: stage_sim_def)
    show ?thesis
    proof (cases "k1 = Next")
      case False
      from iteration_upload_break [OF ns u1 False] iteration_upload_break [OF nt u2] False k
      have "iteration e rdir dly tc tot idx fpath s = (k1, s1)"
           "iteration e rdir dly tc tot idx fpath t = (k1, t1)" by simp_all
      moreover from s1 have "sim ?g' s1 t1" by (rule sim_mono) simp
      ultimately show ?thesis by (simp add: stage_sim_def)
    next
      case True
      with u1 u2 k have i1: "iteration e rdir dly tc tot idx fpath s =
          (case checkpoint tc idx s1 of (Next, s3) \<Rightarrow> inter_file_delay e dly tot idx s3 | r \<Rightarrow> r)"
        and i2: "iteration e rdir dly tc tot idx fpath t =
          (case checkpoint tc idx t1 of (Next, s3) \<Rightarrow> inter_file_delay e dly tot idx s3 | r \<Rightarrow> r)"
        using iteration_after_upload [OF ns] iteration_after_upload [OF nt] by simp_all
      obtain k3 s2 where c1: "checkpoint tc idx s1 = (k3, s2)" by fastforce
      obtain k4 t2 where c2: "checkpoint tc idx t1 = (k4, t2)" by fastforce
      have ck: "k4 = k3 \<and> sim ?g' s2 t2"
      proof (cases "tc \<noteq> 0 \<and> int idx = tc")
        case False
        with c1 c2 have "k3 = Next" "s2 = s1" "k4 = Next" "t2 = t1"
          by (simp_all add: checkpoint_skip)
        moreover from s1 have "sim ?g' s1 t1" by (rule sim_mono) simp
        ultimately show ?thesis by simp
      next
        case True
        with s1 have "sim True s1 t1" by simp
        from checkpoint_sim [OF this, of tc idx] c1 c2 have "k4 = k3" "sim False s2 t2"
          by (simp_all add: stage_sim_def)
        with True show ?thesis by simp
      qed
      show ?thesis
      proof (cases "k3 = Next")
        case False
        with ck c1 c2 i1 i2 show ?thesis by (cases k3) (simp_all add: stage_sim_def)
      next
        case True
        with ck c1 c2 i1 i2 have "iteration e rdir dly tc tot idx fpath s = inter_file_delay e dly tot idx s2"
          "iteration e rdir dly tc tot idx fpath t = inter_file_delay e dly tot idx t2" by simp_all
        moreover from ck have "sim ?g' s2 t2" by simp
        ultimately show ?thesis using inter_file_delay_sim by simp
      qed
    qed
  qed
qed

lemma upload_loop_sim:
  assumes "sim (int idx \<le> tc) s t"
  shows "stage_sim False (upload_loop e rdir dly tc tot idx files s)
                         (upload_loop e rdir dly tc tot idx files t)"
  using assms
proof (induction files arbitrary: idx s t)
  case Nil
  then show ?case by (auto simp: stage_sim_def intro: sim_weaken)
next
  case (Cons f fs)
  obtain k1 s1 where i1: "iteration e rdir dly tc tot idx f s = (k1, s1)" by fastforce
  obtain k2 t1 where i2: "iteration e rdir dly tc tot idx f t = (k2, t1)" by fastforce
  from iteration_sim [OF Cons.prems, of e rdir dly tot f] i1 i2
  have k: "k2 = k1" and s1: "sim (int idx < tc) s1 t1" by (simp_all add: stage_sim_def)
  show ?case
  proof (cases "k1 = Next")
    case True
    from s1 have "sim (int (Suc idx) \<le> tc) s1 t1" by (rule sim_mono) simp
    from Cons.IH [OF this] True k i1 i2 show ?thesis by simp
  next
    case False
    from s1 have "sim False s1 t1" by (rule sim_weaken)
    with False k i1 i2 show ?thesis by (cases k1) (simp_all add: stage_sim_def)
  qed
qed

lemma initial_delay_sim:
  assumes "sim g s t"
  shows "stage_sim g (initial_delay m s) (initial_delay m t)"
proof (cases "m * 60 > 0")
  case False
  with assms show ?thesis by (simp add: initial_delay_def stage_sim_def)
next
  case True
  let ?a = "sleep (m * 60) ''Starting in'' 0 (emit (Log (Scheduled (m))) s)"
  let ?b = "sleep (m * 60) ''Starting in'' 0 (emit (Log (Scheduled (m))) t)"
  from assms have "sim g (emit (Log (Scheduled (m))) s)
                         (emit (Log (Scheduled (m))) t)" by (rule sim_emit)
  from sleep_loop_sim [OF this, of "''Starting in''" 0 "nat (m * 60)"]
  have r: "fst ?b = fst ?a" "sim g (snd ?a) (snd ?b)" by (auto simp: stage_sim_def sleep_def)
  obtain oka sa where a: "?a = (oka, sa)" by fastforce
  obtain okb sb where b: "?b = (okb, sb)" by fastforce
  from r a b have "okb = oka" "sim g sa sb" by simp_all
  with True a b show ?thesis
    by (cases oka) (auto simp: initial_delay_def stage_sim_def Let_def intro!: sim_emit)
qed

lemma connect_stage_sim:
  assumes "sim g s t"
  shows "stage_sim g (connect_stage c e s) (connect_stage c e t)"
  using assms by (auto simp: connect_stage_def Let_def stage_sim_def intro!: sim_emit)

lemma run_sim:
  assumes "sim True s t"
  shows "stage_sim False (run c files e s) (run c files e t)"
proof (cases "start_delay_min c")
  case None
  with assms show ?thesis by (auto simp: run_def stage_sim_def intro: sim_weaken)
next
  case (Some m)
  obtain ok1 s1 where d1: "initial_delay m s = (ok1, s1)" by fastforce
  obtain ok2 t1 where d2: "initial_delay m t = (ok2, t1)" by fastforce
  from initial_delay_sim [OF assms, of m] d1 d2 have ok: "ok2 = ok1" and s1: "sim True s1 t1"
    by (simp_all add: stage_sim_def)
  show ?thesis
  proof (cases ok1)
    case False
    with Some d1 d2 ok s1 show ?thesis by (auto simp: run_def stage_sim_def intro: sim_weaken)
  next
    case True
    obtain ok3 s2 where c1: "connect_stage c e s1 = (ok3, s2)" by fastforce
    obtain ok4 t2 where c2: "connect_stage c e t1 = (ok4, t2)" by fastforce
    from connect_stage_sim [OF s1, of c e] c1 c2 have ok': "ok4 = ok3" and s2: "sim True s2 t2"
      by (simp_all add: stage_sim_def)
    show ?thesis
    proof (cases ok3)
      case False
      with Some True d1 d2 ok c1 c2 ok' s2 show ?thesis
        by (auto simp: run_def stage_sim_def intro: sim_weaken)
    next
      case ok3: True
      show ?thesis
      proof (cases "get_delay c = None \<or> get_test_count c = None")
        case True
        with Some \<open>ok1\<close> ok3 d1 d2 ok c1 c2 ok' s2 show ?thesis
          by (auto simp: run_def stage_sim_def Let_def split: option.splits intro: sim_weaken)
      next
        case False
        then obtain dly tc where g: "get_delay c = Some dly" "get_test_count c = Some tc"
          by auto
        let ?la = "upload_loop e (rstrip_slash (remote_dir c)) dly tc (length files) 1 files s2"
        let ?lb = "upload_loop e (rstrip_slash (remote_dir c)) dly tc (length files) 1 files t2"
        from s2 have "sim (int 1 \<le> tc) s2 t2" by (rule sim_mono) simp
        from upload_loop_sim [OF this] have r: "fst ?lb = fst ?la" "sim False (snd ?la) (snd ?lb)"
          by (simp_all add: stage_sim_def)
        obtain k s3 where la: "?la = (k, s3)" by fastforce
        obtain k' t3 where lb: "?lb = (k', t3)" by fastforce
        from r la lb have "k' = k" "sim False s3 t3" by simp_all
        with Some \<open>ok1\<close> ok3 d1 d2 ok c1 c2 ok' la lb g show ?thesis
          by (cases k) (auto simp: run_def stage_sim_def Let_def teardown_def intro!: sim_emit)
      qed
    qed
  qed
qed

subsection \<open>The seconds of a wait\<close>

lemma stop_seen_0 [simp]: "stop_seen 0 s = stop_flag s"
  by (simp add: stop_seen_def)

lemma stop_seen_absorb: "stop_seen n (absorb s) = stop_seen (Suc n) s"
  by (cases "pending s") (auto simp: stop_seen_def absorb_flag)

lemma stop_seen_emit [simp]: "stop_seen n (emit ev s) = stop_seen n s"
  by (simp add: stop_seen_def)

lemma stop_seen_mono: "stop_seen i s \<Longrightarrow> i \<le> j \<Longrightarrow> stop_seen j s"
proof -
  assume a: "stop_seen i s" and le: "i \<le> j"
  from le have "set (take i (pending s)) \<subseteq> set (take j (pending s))" by (rule set_take_subset_set_take)
  with a show ?thesis by (auto simp: stop_seen_def list_ex_iff)
qed

lemma sleep_loop_full:
  assumes "p \<noteq> []" and "n = 0 \<or> \<not> stop_seen (2 * n - 1) s"
  shows "fst (sleep_loop p l n s) \<and>
         out (snd (sleep_loop p l n s)) = out s @ countdown p l n n @ [Timer Cleared]"
  using assms(2)
proof (induction n arbitrary: s)
  case 0
  from assms(1) show ?case by simp
next
  case (Suc n)
  then have ns: "\<not> stop_seen (2 * n + 1) s" by simp
  then have n1: "\<not> stop_seen 1 s" using stop_seen_mono [of 1 s "2 * n + 1"] by auto
  then have f: "\<not> stop_flag (absorb s)" using stop_seen_absorb [of 0 s] by simp
  let ?tick = "Timer (Countdown p (int (Suc n) div 60) (int (Suc n) mod 60)
                 (if l \<noteq> 0 then Some l else None))"
  let ?s3 = "emit Wait1 (absorb (emit ?tick (absorb s)))"
  from f assms(1) have step: "sleep_loop p l (Suc n) s = sleep_loop p l n ?s3"
    by (simp add: Let_def)
  have "n = 0 \<or> \<not> stop_seen (2 * n - 1) ?s3"
  proof (cases n)
    case 0
    then show ?thesis by simp
  next
    case (Suc j)
    have "stop_seen (2 * n - 1) ?s3 = stop_seen (Suc (Suc (2 * n - 1))) s"
      by (simp add: stop_seen_absorb)
    also from Suc have "Suc (Suc (2 * n - 1)) = 2 * n + 1" by simp
    finally show ?thesis using ns by simp
  qed
  from Suc.IH [OF this] show ?case unfolding step by simp
qed

lemma sleep_loop_cut:
  assumes "p \<noteq> []" and "k < n" and "k = 0 \<or> \<not> stop_seen (2 * k - 1) s"
    and "stop_seen (2 * k + 1) s"
  shows "\<not> fst (sleep_loop p l n s) \<and>
         out (snd (sleep_loop p l n s)) = out s @ countdown p l n k"
  using assms(2,3,4)
proof (induction n arbitrary: s k)
  case 0
  then show ?case by simp
next
  case (Suc n)
  show ?case
  proof (cases k)
    case 0
    with Suc.prems have "stop_flag (absorb s)" using stop_seen_absorb [of 0 s] by simp
    with 0 show ?thesis by (simp add: Let_def)
  next
    case (Suc k')
    with Suc.prems have ns: "\<not> stop_seen (2 * k' + 1) s" and ys: "stop_seen (2 * k' + 3) s"
      and lt: "k' < n" by (simp_all add: numeral_3_eq_3)
    from ns have n1: "\<not> stop_seen 1 s" using stop_seen_mono [of 1 s "2 * k' + 1"] by auto
    then have f: "\<not> stop_flag (absorb s)" using stop_seen_absorb [of 0 s] by simp
    let ?tick = "Timer (Countdown p (int (Suc n) div 60) (int (Suc n) mod 60)
                   (if l \<noteq> 0 then Some l else None))"
    let ?s3 = "emit Wait1 (absorb (emit ?tick (absorb s)))"
    from f assms(1) have step: "sleep_loop p l (Suc n) s = sleep_loop p l n ?s3"
      by (simp add: Let_def)
    have sh: "\<And>j. stop_seen j ?s3 = stop_seen (Suc (Suc j)) s" by (simp add: stop_seen_absorb)
    have a: "k' = 0 \<or> \<not> stop_seen (2 * k' - 1) ?s3"
    proof (cases k')
      case 0
      then show ?thesis by simp
    next
      case (Suc j)
      then have "Suc (Suc (2 * k' - 1)) = 2 * k' + 1" by simp
      with ns sh [of "2 * k' - 1"] show ?thesis by simp
    qed
    have b: "stop_seen (2 * k' + 1) ?s3" using ys sh [of "2 * k' + 1"] by (simp add: numeral_3_eq_3)
    from Suc.IH [OF lt a b] Suc show ?thesis unfolding step by simp
  qed
qed

subsection \<open>The terminal item\<close>

lemma start_not_close: "list_all start_event evs \<Longrightarrow> CloseSftp \<notin> set evs \<and> CloseTransport \<notin> set evs"
proof (induction evs)
  case Nil
  show ?case by simp
next
  case (Cons ev evs)
  then show ?case by (cases ev rule: start_event.cases) auto
qed

lemma get_test_count_nonzero: "get_test_count c = Some tc \<Longrightarrow> tc \<noteq> 0 \<Longrightarrow> use_test c"
  by (auto simp: get_test_count_def split: if_splits)

text \<open>
  A run that returns has sent one \<open>Done\<close>, as its last event; a run that waits on the reply
  queue, or that is left by the \<^verbatim>\<open>ValueError\<close> of \<^verbatim>\<open>int\<close>, has sent none, and the second has
  not closed the session either.
\<close>

lemma run_done_once:
  assumes "run c files e (init script) = (st, s')"
  shows "(st = Returns \<longrightarrow> (\<exists>pre b. out s' = pre @ [Done b] \<and> \<not> list_ex is_done pre))
       \<and> (st = Blocks \<longrightarrow> \<not> list_ex is_done (out s') \<and> out s' \<noteq> [] \<and> last (out s') = Confirm
                          \<and> reply_q s' = [] \<and> use_test c)
       \<and> (st = Raises \<longrightarrow> \<not> list_ex is_done (out s') \<and> CloseSftp \<notin> set (out s')
                          \<and> CloseTransport \<notin> set (out s')
                          \<and> (start_delay_min c = None \<or> get_delay c = None
                              \<or> get_test_count c = None))"
proof (cases "start_delay_min c")
  case None
  with assms have "st = Raises" "s' = init script" by (simp_all add: run_def)
  with None show ?thesis by (simp add: init_def)
next
  case (Some m)
  from run_shape [OF assms Some] obtain ev1 where st: "list_all start_event ev1" and
    sh: "(st = Returns \<and> \<not> fst (initial_delay m (init script))
         \<and> out s' = ev1 @ [Log StoppedInitialDelay, Done False])
    \<or> (st = Returns \<and> fst (initial_delay m (init script)) \<and> \<not> connect_ok e
         \<and> out s' = ev1 @ [Log (Connecting (host c) (port c)), ConnectCall,
                           Log ConnectionFailed, Done False])
    \<or> (st = Returns \<and> fst (initial_delay m (init script)) \<and> connect_ok e \<and> \<not> home_ok e
         \<and> out s' = ev1 @ [Log (Connecting (host c) (port c)), ConnectCall, NormalizeCall,
                           Log ConnectionFailed, Done False])
    \<or> (st = Raises \<and> fst (initial_delay m (init script)) \<and> connect_ok e \<and> home_ok e
         \<and> (get_delay c = None \<or> get_test_count c = None)
         \<and> out s' = ev1 @ [Log (Connecting (host c) (port c)), ConnectCall, NormalizeCall,
                           Log Connected])
    \<or> (fst (initial_delay m (init script)) \<and> connect_ok e \<and> home_ok e
         \<and> (\<exists>dly tc k s2 s3. get_delay c = Some dly \<and> get_test_count c = Some tc
               \<and> out s2 = ev1 @ [Log (Connecting (host c) (port c)), ConnectCall,
                                  NormalizeCall, Log Connected]
               \<and> upload_loop e (rstrip_slash (remote_dir c)) dly tc (length files) 1 files s2
                    = (k, s3)
               \<and> (if k = Block then st = Blocks \<and> s' = s3
                   else st = Returns \<and> s' = teardown s3)))" by blast
  from st have nd1: "\<not> list_ex is_done ev1" by (rule no_done_start)
  from st have nc1: "CloseSftp \<notin> set ev1 \<and> CloseTransport \<notin> set ev1" by (rule start_not_close)
  from sh show ?thesis
  proof (elim disjE conjE exE)
    assume "st = Returns" "out s' = ev1 @ [Log StoppedInitialDelay, Done False]"
    with nd1 show ?thesis
      by (auto intro!: exI [of _ "ev1 @ [Log StoppedInitialDelay]"])
  next
    assume "st = Returns" "out s' = ev1 @ [Log (Connecting (host c) (port c)), ConnectCall,
                           Log ConnectionFailed, Done False]"
    with nd1 show ?thesis
      by (auto intro!: exI [of _ "ev1 @ [Log (Connecting (host c) (port c)), ConnectCall,
                                         Log ConnectionFailed]"])
  next
    assume "st = Returns" "out s' = ev1 @ [Log (Connecting (host c) (port c)), ConnectCall,
                           NormalizeCall, Log ConnectionFailed, Done False]"
    with nd1 show ?thesis
      by (auto intro!: exI [of _ "ev1 @ [Log (Connecting (host c) (port c)), ConnectCall,
                                         NormalizeCall, Log ConnectionFailed]"])
  next
    assume "st = Raises" "get_delay c = None"
      "out s' = ev1 @ [Log (Connecting (host c) (port c)), ConnectCall, NormalizeCall,
                       Log Connected]"
    with nd1 nc1 show ?thesis by simp
  next
    assume "st = Raises" "get_test_count c = None"
      "out s' = ev1 @ [Log (Connecting (host c) (port c)), ConnectCall, NormalizeCall,
                       Log Connected]"
    with nd1 nc1 show ?thesis by simp
  next
    fix dly tc k s2 s3
    assume tc: "get_test_count c = Some tc"
      and o2: "out s2 = ev1 @ [Log (Connecting (host c) (port c)), ConnectCall,
                                NormalizeCall, Log Connected]"
      and lp: "upload_loop e (rstrip_slash (remote_dir c)) dly tc (length files) 1 files s2
                 = (k, s3)"
      and fin: "if k = Block then st = Blocks \<and> s' = s3 else st = Returns \<and> s' = teardown s3"
    from upload_loop_out [OF lp] obtain ev3 where
      ev3: "out s3 = out s2 @ ev3" "list_all loop_event ev3" by auto
    from ev3(2) have nd3: "\<not> list_ex is_done ev3" by (rule no_done_loop)
    show ?thesis
    proof (cases "k = Block")
      case True
      with fin have r: "st = Blocks" "s' = s3" by simp_all
      from upload_loop_block lp True
      have "out s3 \<noteq> [] \<and> last (out s3) = Confirm \<and> reply_q s3 = [] \<and> tc \<noteq> 0" by blast
      with r o2 ev3(1) nd1 nd3 get_test_count_nonzero [OF tc] show ?thesis by auto
    next
      case False
      with fin have r: "st = Returns" "s' = teardown s3" by simp_all
      with o2 ev3(1) nd1 nd3 show ?thesis
        by (auto simp: teardown_def
              intro!: exI [of _ "ev1 @ [Log (Connecting (host c) (port c)), ConnectCall,
                                        NormalizeCall, Log Connected] @ ev3 @ [CloseSftp, CloseTransport]"])
    qed
  qed
qed

text \<open>A run that got past the connect stage and returns ends with the teardown.\<close>

lemma run_connected_end:
  assumes "run c files e (init script) = (Returns, s')" and "Log Connected \<in> set (out s')"
  shows "\<exists>pre. out s' = pre @ [CloseSftp, CloseTransport, Done True]"
proof (cases "start_delay_min c")
  case None
  with assms(1) show ?thesis by (simp add: run_def)
next
  case (Some m)
  from run_shape [OF assms(1) Some] obtain ev1 where st: "list_all start_event ev1" and
    sh: "(\<not> fst (initial_delay m (init script))
         \<and> out s' = ev1 @ [Log StoppedInitialDelay, Done False])
    \<or> (\<not> connect_ok e
         \<and> out s' = ev1 @ [Log (Connecting (host c) (port c)), ConnectCall,
                           Log ConnectionFailed, Done False])
    \<or> (\<not> home_ok e
         \<and> out s' = ev1 @ [Log (Connecting (host c) (port c)), ConnectCall, NormalizeCall,
                           Log ConnectionFailed, Done False])
    \<or> (\<exists>k s3. k \<noteq> Block \<and> s' = teardown s3)"
    by (auto split: if_splits)
  from st have n1: "Log Connected \<notin> set ev1" by (auto simp: list_all_iff)
  from sh assms(2) n1 show ?thesis by (auto simp: teardown_def)
qed

section \<open>The claims\<close>

text \<open>
  C6. The inputs at which \<^verbatim>\<open>run\<close> has no terminal item: the inter-file delay is in use and
  its field holds a text that \<^verbatim>\<open>int\<close> rejects (\<^verbatim>\<open>"1.5"\<close>, say), or the test batch is in use
  and its field holds such a text; one file, a world where everything works, no request
  from the GUI. The worker connects, and then \<^verbatim>\<open>int(cfg["delay"])\<close>, or
  \<^verbatim>\<open>int(cfg["test_n"])\<close>, raises between the two \<^verbatim>\<open>try\<close> blocks: \<^verbatim>\<open>run\<close> is left with the
  four events of the connect stage sent, no \<open>Done\<close> item on the log queue and the session
  not closed. (On every other way out there is one \<open>Done\<close>, sent last: \<open>run_done_once\<close>.)
\<close>

theorem c6_value_error_no_done:
  "run (demo_cfg\<lparr>use_delay := True, delay := None\<rparr>) [''a.txt''] demo_env (init []) =
     (Raises, \<lparr>stop_flag = False, reply_q = [], pending = [],
               out = [Log (Connecting ''h'' ''22''), ConnectCall, NormalizeCall, Log Connected]\<rparr>)
   \<and> run (demo_cfg\<lparr>use_test := True, test_n := None\<rparr>) [''a.txt''] demo_env (init []) =
     (Raises, \<lparr>stop_flag = False, reply_q = [], pending = [],
               out = [Log (Connecting ''h'' ''22''), ConnectCall, NormalizeCall, Log Connected]\<rparr>)"
  by (simp add: run_def demo_cfg_def demo_env_def init_def initial_delay_def connect_stage_def
        get_delay_def get_test_count_def emit_def Let_def)



text \<open>
  C1 (as amended). In a run that returns, the flag of the terminal \<open>Done\<close> is \<open>False\<close> exactly
  when the start delay was cut short by a stop request or the connect stage raised, be it
  in \<^verbatim>\<open>_connect\<close> or in the look-up of the remote home on the session \<^verbatim>\<open>_connect\<close> has just
  opened; equivalently, exactly when the event before \<open>Done\<close> is the line "Stopped during
  initial delay" or "Connection failed". A run that shows a user stop in the loop, a
  declined test batch or a failed reconnect ends with \<open>Done True\<close>.
\<close>

theorem c1_done_flag:
  assumes "run c files e (init script) = (Returns, s')"
  shows "\<exists>m pre b. start_delay_min c = Some m \<and> out s' = pre @ [Done b]
       \<and> (\<not> b \<longleftrightarrow> \<not> fst (initial_delay m (init script)) \<or> \<not> connect_ok e \<or> \<not> home_ok e)
       \<and> (\<not> b \<longleftrightarrow> pre \<noteq> [] \<and> (last pre = Log StoppedInitialDelay \<or> last pre = Log ConnectionFailed))
       \<and> (Log StoppedByUser \<in> set pre \<or> Log StoppedAfterTest \<in> set pre
            \<or> Log ReconnectFailed \<in> set pre \<longrightarrow> b)"
proof (cases "start_delay_min c")
  case None
  with assms show ?thesis by (simp add: run_def)
next
  case (Some m)
  from run_shape [OF assms Some] obtain ev1 where st: "list_all start_event ev1" and
    sh: "(Returns = Returns \<and> \<not> fst (initial_delay m (init script))
         \<and> out s' = ev1 @ [Log StoppedInitialDelay, Done False])
    \<or> (Returns = Returns \<and> fst (initial_delay m (init script)) \<and> \<not> connect_ok e
         \<and> out s' = ev1 @ [Log (Connecting (host c) (port c)), ConnectCall,
                           Log ConnectionFailed, Done False])
    \<or> (Returns = Returns \<and> fst (initial_delay m (init script)) \<and> connect_ok e \<and> \<not> home_ok e
         \<and> out s' = ev1 @ [Log (Connecting (host c) (port c)), ConnectCall, NormalizeCall,
                           Log ConnectionFailed, Done False])
    \<or> (Returns = Raises \<and> fst (initial_delay m (init script)) \<and> connect_ok e \<and> home_ok e
         \<and> (get_delay c = None \<or> get_test_count c = None)
         \<and> out s' = ev1 @ [Log (Connecting (host c) (port c)), ConnectCall, NormalizeCall,
                           Log Connected])
    \<or> (fst (initial_delay m (init script)) \<and> connect_ok e \<and> home_ok e
         \<and> (\<exists>dly tc k s2 s3. get_delay c = Some dly \<and> get_test_count c = Some tc
               \<and> out s2 = ev1 @ [Log (Connecting (host c) (port c)), ConnectCall,
                                  NormalizeCall, Log Connected]
               \<and> upload_loop e (rstrip_slash (remote_dir c)) dly tc (length files) 1 files s2
                    = (k, s3)
               \<and> (if k = Block then Returns = Blocks \<and> s' = s3
                   else Returns = Returns \<and> s' = teardown s3)))" by blast
  have ns: "Log StoppedByUser \<notin> set ev1 \<and> Log StoppedAfterTest \<notin> set ev1 \<and> Log ReconnectFailed \<notin> set ev1"
    using st by (auto simp: list_all_iff)
  from sh show ?thesis
  proof (elim disjE conjE exE)
    assume "\<not> fst (initial_delay m (init script))"
      "out s' = ev1 @ [Log StoppedInitialDelay, Done False]"
    with ns Some show ?thesis
      by (intro exI [of _ m] exI [of _ "ev1 @ [Log StoppedInitialDelay]"] exI [of _ False]) auto
  next
    assume "\<not> connect_ok e" "out s' = ev1 @ [Log (Connecting (host c) (port c)), ConnectCall,
                           Log ConnectionFailed, Done False]"
    with ns Some show ?thesis
      by (intro exI [of _ m] exI [of _ "ev1 @ [Log (Connecting (host c) (port c)), ConnectCall,
            Log ConnectionFailed]"] exI [of _ False]) auto
  next
    assume "\<not> home_ok e" "out s' = ev1 @ [Log (Connecting (host c) (port c)), ConnectCall,
                           NormalizeCall, Log ConnectionFailed, Done False]"
    with ns Some show ?thesis
      by (intro exI [of _ m] exI [of _ "ev1 @ [Log (Connecting (host c) (port c)), ConnectCall,
            NormalizeCall, Log ConnectionFailed]"] exI [of _ False]) auto
  next
    assume "Returns = Raises" "get_delay c = None"
    then show ?thesis by simp
  next
    assume "Returns = Raises" "get_test_count c = None"
    then show ?thesis by simp
  next
    fix dly tc k s2 s3
    assume ok: "fst (initial_delay m (init script))" "connect_ok e" "home_ok e"
      and o2: "out s2 = ev1 @ [Log (Connecting (host c) (port c)), ConnectCall,
                                NormalizeCall, Log Connected]"
      and lp: "upload_loop e (rstrip_slash (remote_dir c)) dly tc (length files) 1 files s2
                 = (k, s3)"
      and fin: "if k = Block then Returns = Blocks \<and> s' = s3
                else Returns = Returns \<and> s' = teardown s3"
    from fin have r: "s' = teardown s3" by (cases "k = Block") simp_all
    from upload_loop_out [OF lp] obtain ev3 where ev3: "out s3 = out s2 @ ev3" by auto
    with o2 r ok Some show ?thesis
      by (intro exI [of _ m] exI [of _ "ev1 @ [Log (Connecting (host c) (port c)), ConnectCall,
            NormalizeCall, Log Connected] @ ev3 @ [CloseSftp, CloseTransport]"] exI [of _ True])
         (auto simp: teardown_def)
  qed
qed

theorem c1_done_flag_witness:
  "(\<exists>pre. out (snd (run demo_cfg [''a.txt''] refuse_env (init []))) = pre @ [Done False])
   \<and> (\<exists>pre. out (snd (run demo_cfg [''a.txt''] (demo_env\<lparr>home_ok := False\<rparr>) (init [])))
              = pre @ [Done False])
   \<and> (\<exists>pre. out (snd (run demo_cfg [''a.txt''] demo_env (init [[Stop]]))) = pre @ [Done True]
           \<and> Log StoppedByUser \<in> set pre)"
proof -
  let ?h = "demo_env\<lparr>home_ok := False\<rparr>"
  let ?r1 = "run demo_cfg [''a.txt''] refuse_env (init [])"
  let ?r2 = "run demo_cfg [''a.txt''] ?h (init [])"
  let ?r3 = "run demo_cfg [''a.txt''] demo_env (init [[Stop]])"
  have r1: "fst ?r1 = Returns" by code_simp
  have r2: "fst ?r2 = Returns" by code_simp
  have r3: "fst ?r3 = Returns" by code_simp
  have e1: "\<not> connect_ok refuse_env" by (simp add: refuse_env_def)
  have e2: "\<not> home_ok ?h" by simp
  have e3: "Log StoppedByUser \<in> set (out (snd ?r3))" by code_simp
  from r1 have p1: "?r1 = (Returns, snd ?r1)" by (metis prod.collapse)
  from r2 have p2: "?r2 = (Returns, snd ?r2)" by (metis prod.collapse)
  from r3 have p3: "?r3 = (Returns, snd ?r3)" by (metis prod.collapse)
  from c1_done_flag [OF p1] e1 have a: "\<exists>pre. out (snd ?r1) = pre @ [Done False]" by auto
  from c1_done_flag [OF p2] e2 have b: "\<exists>pre. out (snd ?r2) = pre @ [Done False]" by auto
  from c1_done_flag [OF p3] obtain m pre b where
    d: "out (snd ?r3) = pre @ [Done b]"
       "Log StoppedByUser \<in> set pre \<or> Log StoppedAfterTest \<in> set pre
          \<or> Log ReconnectFailed \<in> set pre \<longrightarrow> b" by blast
  from d(1) e3 have "Log StoppedByUser \<in> set pre" by auto
  with d have c: "\<exists>pre. out (snd ?r3) = pre @ [Done True] \<and> Log StoppedByUser \<in> set pre" by auto
  from a b c show ?thesis by blast
qed

text \<open>
  The claim as stated fails when the look-up of the remote home raises: \<^verbatim>\<open>_connect\<close> has
  returned, so the session is established (and \<^verbatim>\<open>sftp.normalize\<close> is called on it), there
  is no start delay, and yet the run ends with "Connection failed" and \<open>Done False\<close>.
\<close>

theorem c1_counterexample:
  "connect_ok (demo_env\<lparr>home_ok := False\<rparr>)
   \<and> start_delay_min demo_cfg = Some 0
   \<and> run demo_cfg [''a.txt''] (demo_env\<lparr>home_ok := False\<rparr>) (init []) =
       (Returns, \<lparr>stop_flag = False, reply_q = [], pending = [],
                  out = [Log (Connecting ''h'' ''22''), ConnectCall, NormalizeCall,
                         Log ConnectionFailed, Done False]\<rparr>)"
  by (simp add: run_def demo_cfg_def demo_env_def init_def initial_delay_def connect_stage_def
        emit_def Let_def)

text \<open>
  C4 (as amended). The script's batches \<open>2k\<close> and \<open>2k + 1\<close> are those the start delay takes
  in its second \<open>k + 1\<close>: the first at the poll that opens the second, the other during
  the one-second wait. With a start delay of \<open>D > 0\<close> seconds, a stop request in one of the
  batches \<open>0\<close> to \<open>2D - 2\<close>, that is before the last one-second wait begins, ends the run
  with "Stopped during initial delay" and \<open>Done False\<close>, and \<^verbatim>\<open>_connect\<close> is never called.
\<close>

theorem c4_cancel_during_start_delay:
  assumes "start_delay_min c = Some m" and "0 < m"
    and "j < 2 * nat (m * 60) - 1"
    and "j < length script"
    and "Stop \<in> set (script ! j)"
  shows "fst (run c files e (init script)) = Returns
       \<and> (\<exists>evs. out (snd (run c files e (init script))) = evs @ [Log StoppedInitialDelay, Done False]
                 \<and> list_all start_event evs)
       \<and> ConnectCall \<notin> set (out (snd (run c files e (init script))))"
proof -
  let ?s0 = "emit (Log (Scheduled m)) (init script)"
  obtain ok1 s1 where d: "initial_delay m (init script) = (ok1, s1)" by fastforce
  have n0: "0 < nat (m * 60)" using assms(2) by simp
  have "stop_flag ?s0 \<or> (\<exists>i. i < 2 * nat (m * 60) - 1 \<and> i < length (pending ?s0)
          \<and> Stop \<in> set (pending ?s0 ! i))"
    using assms(3,4,5) by auto
  from sleep_loop_interrupted [OF n0 this]
  have "\<not> fst (sleep (m * 60) ''Starting in'' 0 ?s0)" by (simp add: sleep_def)
  with d assms(2) have nok: "\<not> ok1"
    by (auto simp: initial_delay_def Let_def split: prod.splits bool.splits)
  from initial_delay_out [OF d] nok obtain evs where
    evs: "list_all start_event evs" "out s1 = evs @ [Log StoppedInitialDelay, Done False]" by auto
  from evs(1) have "ConnectCall \<notin> set evs" by (auto simp: list_all_iff)
  moreover from d nok assms(1) have "run c files e (init script) = (Returns, s1)"
    by (simp add: run_def)
  ultimately show ?thesis using evs by auto
qed

theorem c4_cancel_during_start_delay_witness:
  "out (snd (run (demo_cfg\<lparr>start_delay_min := Some 1\<rparr>) [''a.txt''] demo_env (init [[], [Stop]])))
     = [Log (Scheduled 1), Timer (Countdown ''Starting in'' 1 0 None), Wait1,
        Log StoppedInitialDelay, Done False]
   \<and> ConnectCall \<notin> set (out (snd (run (demo_cfg\<lparr>start_delay_min := Some 1\<rparr>) [''a.txt'']
                                      demo_env (init [[], [Stop]]))))"
proof -
  have a: "start_delay_min (demo_cfg\<lparr>start_delay_min := Some 1\<rparr>) = Some 1" by simp
  have a': "(0::int) < 1" by simp
  have b: "(1::nat) < 2 * nat (1 * 60) - 1" by simp
  have c: "(1::nat) < length [[], [Stop]]" by simp
  have d: "Stop \<in> set ([[], [Stop]] ! 1)" by simp
  have "out (snd (run (demo_cfg\<lparr>start_delay_min := Some 1\<rparr>) [''a.txt''] demo_env
                   (init [[], [Stop]])))
     = [Log (Scheduled 1), Timer (Countdown ''Starting in'' 1 0 None), Wait1,
        Log StoppedInitialDelay, Done False]" by code_simp
  with c4_cancel_during_start_delay [OF a a' b c d, of "[''a.txt'']" demo_env] show ?thesis by simp
qed

text \<open>
  The claim as stated fails in the last second: \<^verbatim>\<open>_sleep\<close> polls the flag before each
  one-second wait and not after the last one. With a delay of one minute (batches \<open>0\<close> to
  \<open>119\<close>) and the stop request during the sixtieth wait, all sixty waits take place, the
  worker connects, and the run ends with \<open>Done True\<close>.
\<close>

theorem c4_counterexample:
  "start_delay_min (demo_cfg\<lparr>start_delay_min := Some 1\<rparr>) = Some 1
   \<and> (119::nat) < 2 * nat (1 * 60)
   \<and> Stop \<in> set ((replicate 119 [] @ [[Stop]]) ! 119)
   \<and> length (filter (\<lambda>ev. ev = Wait1) (out (snd (run (demo_cfg\<lparr>start_delay_min := Some 1\<rparr>)
         [''a.txt''] demo_env (init (replicate 119 [] @ [[Stop]])))))) = 60
   \<and> ConnectCall \<in> set (out (snd (run (demo_cfg\<lparr>start_delay_min := Some 1\<rparr>) [''a.txt''] demo_env
         (init (replicate 119 [] @ [[Stop]])))))
   \<and> last (out (snd (run (demo_cfg\<lparr>start_delay_min := Some 1\<rparr>) [''a.txt''] demo_env
         (init (replicate 119 [] @ [[Stop]]))))) = Done True"
  by code_simp

text \<open>
  C5 (as amended). A wait with a timer prefix sends countdown ticks and, only when it ran
  its full duration, the empty timer text; \<^verbatim>\<open>run\<close> then sends the empty text once more.
  A wait cut short by a stop request sends no empty timer text. After the start delay the
  run then ends with the line "Stopped during initial delay" and \<open>Done False\<close>; after an
  inter-file delay the loop breaks without a further event, and the run, like every run
  that got past the connect stage and returns, ends with the teardown and \<open>Done True\<close>.
\<close>

theorem c5_clear_after_wait:
  "(p \<noteq> [] \<longrightarrow>
      (\<exists>ticks. list_all tick_event ticks \<and>
         out (snd (sleep d p t s)) =
           out s @ ticks @ (if fst (sleep d p t s) then [Timer Cleared] else [])))
   \<and> (0 < m \<longrightarrow>
      (\<exists>ticks. list_all tick_event ticks \<and>
         out (snd (initial_delay m s)) =
           out s @ Log (Scheduled m) # ticks @
             (if fst (initial_delay m s) then [Timer Cleared, Timer Cleared]
              else [Log StoppedInitialDelay, Done False])))
   \<and> (dly \<noteq> 0 \<and> idx < tot \<and> \<not> stop_flag (absorb s) \<longrightarrow>
      (\<exists>ticks. list_all tick_event ticks \<and>
         (if fst (sleep dly ''Next upload in'' (int idx + 1) (absorb s))
          then \<exists>rest. out (snd (inter_file_delay e dly tot idx s)) =
                  out s @ ticks @ [Timer Cleared, Timer Cleared] @ rest
                \<and> list_all (\<lambda>ev. \<not> waiting_event ev) rest
          else inter_file_delay e dly tot idx s = (Break, snd (sleep dly ''Next upload in'' (int idx + 1) (absorb s)))
               \<and> out (snd (inter_file_delay e dly tot idx s)) = out s @ ticks)))
   \<and> (run c files e' (init script) = (Returns, s') \<and> Log Connected \<in> set (out s') \<longrightarrow>
      (\<exists>pre. out s' = pre @ [CloseSftp, CloseTransport, Done True]))"
proof (intro conjI impI)
  assume p: "p \<noteq> []"
  from sleep_loop_ticks [OF p, of t "nat d" s]
  show "\<exists>ticks. list_all tick_event ticks \<and>
         out (snd (sleep d p t s)) =
           out s @ ticks @ (if fst (sleep d p t s) then [Timer Cleared] else [])"
    by (simp add: sleep_def)
next
  assume m: "0 < m"
  let ?s0 = "emit (Log (Scheduled m)) s"
  have ne: "''Starting in'' \<noteq> []" by simp
  from sleep_loop_ticks [OF ne, of 0 "nat (m * 60)" ?s0]
  obtain ticks where tk: "list_all tick_event ticks"
    "out (snd (sleep (m * 60) ''Starting in'' 0 ?s0)) =
       out ?s0 @ ticks @ (if fst (sleep (m * 60) ''Starting in'' 0 ?s0)
                          then [Timer Cleared] else [])"
    by (auto simp: sleep_def)
  with m show "\<exists>ticks. list_all tick_event ticks \<and>
         out (snd (initial_delay m s)) =
           out s @ Log (Scheduled m) # ticks @
             (if fst (initial_delay m s) then [Timer Cleared, Timer Cleared]
              else [Log StoppedInitialDelay, Done False])"
    by (intro exI [of _ ticks])
       (auto simp: initial_delay_def Let_def split: prod.splits bool.splits)
next
  assume a: "dly \<noteq> 0 \<and> idx < tot \<and> \<not> stop_flag (absorb s)"
  have ne: "''Next upload in'' \<noteq> []" by simp
  let ?sl = "sleep dly ''Next upload in'' (int idx + 1) (absorb s)"
  from sleep_loop_ticks [OF ne, of "int idx + 1" "nat dly" "absorb s"]
  obtain ticks where tk: "list_all tick_event ticks"
    "out (snd ?sl) = out s @ ticks @ (if fst ?sl then [Timer Cleared] else [])"
    by (auto simp: sleep_def)
  show "\<exists>ticks. list_all tick_event ticks \<and>
         (if fst ?sl
          then \<exists>rest. out (snd (inter_file_delay e dly tot idx s)) =
                  out s @ ticks @ [Timer Cleared, Timer Cleared] @ rest
                \<and> list_all (\<lambda>ev. \<not> waiting_event ev) rest
          else inter_file_delay e dly tot idx s = (Break, snd ?sl)
               \<and> out (snd (inter_file_delay e dly tot idx s)) = out s @ ticks)"
  proof (cases "fst ?sl")
    case False
    with a tk show ?thesis
      by (intro exI [of _ ticks])
         (auto simp: inter_file_delay_def Let_def split: prod.splits bool.splits)
  next
    case True
    with a tk show ?thesis
      by (intro exI [of _ ticks])
         (auto simp: inter_file_delay_def Let_def split: prod.splits bool.splits)
  qed
next
  assume "run c files e' (init script) = (Returns, s') \<and> Log Connected \<in> set (out s')"
  then show "\<exists>pre. out s' = pre @ [CloseSftp, CloseTransport, Done True]"
    using run_connected_end by blast
qed

theorem c5_clear_after_wait_witness:
  "(\<exists>ticks. list_all tick_event ticks \<and>
      out (snd (sleep 2 ''Next upload in'' 2 (init [[], [Stop]]))) =
        ticks @ (if fst (sleep 2 ''Next upload in'' 2 (init [[], [Stop]])) then [Timer Cleared] else []))
   \<and> (\<exists>ticks. list_all tick_event ticks \<and>
      out (snd (initial_delay 1 (init [[], [Stop]]))) =
        Log (Scheduled 1) # ticks @ [Log StoppedInitialDelay, Done False])
   \<and> (\<exists>ticks. list_all tick_event ticks \<and>
      fst (inter_file_delay demo_env 2 2 1 (init [[], [Stop]])) = Break
      \<and> out (snd (inter_file_delay demo_env 2 2 1 (init [[], [Stop]]))) = ticks)
   \<and> (\<exists>pre. out (snd (run (demo_cfg\<lparr>use_delay := True, delay := Some 2\<rparr>) [''a.txt'', ''b.txt'']
                          demo_env (init [[], [], [], [Stop]]))) =
          pre @ [CloseSftp, CloseTransport, Done True])"
proof -
  let ?r = "run (demo_cfg\<lparr>use_delay := True, delay := Some 2\<rparr>) [''a.txt'', ''b.txt''] demo_env
              (init [[], [], [], [Stop]])"
  have h1: "''Next upload in'' \<noteq> []" by simp
  have h2: "(0::int) < 1" by simp
  have h3: "(2::int) \<noteq> 0 \<and> (1::nat) < 2 \<and> \<not> stop_flag (absorb (init [[], [Stop]]))"
    by (simp add: absorb_def init_def)
  have f2: "\<not> fst (initial_delay 1 (init [[], [Stop]]))"
    by code_simp
  have f3: "\<not> fst (sleep 2 ''Next upload in'' (int 1 + 1) (absorb (init [[], [Stop]])))"
    by code_simp
  have r1: "fst ?r = Returns" by code_simp
  have r2: "Log Connected \<in> set (out (snd ?r))" by code_simp
  from r1 have r3: "?r = (Returns, snd ?r)" by (metis prod.collapse)
  from c5_clear_after_wait [where p = "''Next upload in''" and d = 2 and t = 2
      and s = "init [[], [Stop]]" and m = 1
      and dly = 2 and idx = 1 and tot = 2 and e = demo_env
      and c = "demo_cfg\<lparr>use_delay := True, delay := Some 2\<rparr>" and files = "[''a.txt'', ''b.txt'']"
      and e' = demo_env and script = "[[], [], [], [Stop]]" and s' = "snd ?r"]
    h1 h2 h3 f2 f3 r2 r3
  show ?thesis by auto
qed

text \<open>
  The claim as stated fails on the cancellation path. Two files, an inter-file delay of
  two seconds, and a stop request during the first second of the wait: the last timer
  item the worker sends is a countdown tick, and no empty timer text follows it.
\<close>

theorem c5_counterexample:
  "out (snd (run (demo_cfg\<lparr>use_delay := True, delay := Some 2\<rparr>) [''a.txt'', ''b.txt''] demo_env
                 (init [[], [], [], [Stop]]))) =
     [Log (Connecting ''h'' ''22''), ConnectCall, NormalizeCall, Log Connected,
      ExistsCall ''a.txt'', IsActiveCall, Log (Uploading 1 2 ''a.txt'' ''up/a.txt''),
      PutCall ''a.txt'' ''up/a.txt'', Log (UploadDone 1 2),
      Timer (Countdown ''Next upload in'' 0 2 (Some 2)), Wait1,
      CloseSftp, CloseTransport, Done True]
   \<and> Timer Cleared \<notin> set (out (snd (run (demo_cfg\<lparr>use_delay := True, delay := Some 2\<rparr>)
                 [''a.txt'', ''b.txt''] demo_env (init [[], [], [], [Stop]]))))"
  by code_simp

text \<open>
  C8. The delay stage of a loop round, from any state, event by event. When the delay is
  \<open>0\<close> (disabled) or no file remains, the stage does nothing, not even poll the flag; when
  the poll finds the flag set, it does nothing more. In these cases the round ends and the
  loop goes on. Otherwise, for a positive delay of \<open>n\<close> seconds, the countdown wait runs:
  second by second the tick with the time remaining, labelled with \<open>idx + 1\<close>, the next
  file's index, and the one-second wait. If the poll that opens second \<open>k + 1\<close> is the first
  to find the flag set, the stage has sent the ticks of \<open>k\<close> seconds and nothing else, and
  the loop is left. If no poll finds it set, the stage sends the ticks of all \<open>n\<close> seconds
  and the empty timer text twice; then, if the delay is at least \<open>RECONNECT_THRESH\<close>, it
  asks whether the session is active, and if it is not, calls \<^verbatim>\<open>_connect\<close> once: on
  success the loop goes on, on failure it is left. The stage is what ends every round that
  comes through the upload stage and the test-batch pause; a round that ends with \<open>Next\<close>
  is followed by the round of the next file, a round that ends with \<open>Break\<close> ends the loop;
  and in every run the line "Reconnect failed" is followed by the teardown and \<open>Done True\<close>
  only. (A negative delay, which the Spinbox does not offer but accepts as typed text,
  counts nothing down: no tick and no second of waiting, only the two empty timer texts.)
\<close>

theorem c8_inter_file_delay:
  "(dly = 0 \<or> \<not> idx < tot \<longrightarrow> inter_file_delay e dly tot idx s = (Next, s))
 \<and> (dly \<noteq> 0 \<and> idx < tot \<and> stop_flag (absorb s) \<longrightarrow>
      inter_file_delay e dly tot idx s = (Next, absorb s) \<and> out (absorb s) = out s)
 \<and> (dly < 0 \<and> idx < tot \<and> \<not> stop_flag (absorb s) \<longrightarrow>
      fst (inter_file_delay e dly tot idx s) = Next
    \<and> out (snd (inter_file_delay e dly tot idx s)) = out s @ [Timer Cleared, Timer Cleared])
 \<and> (0 < dly \<and> idx < tot \<and> \<not> stop_flag (absorb s) \<and> k < nat dly
      \<and> (k = 0 \<or> \<not> stop_seen (2 * k - 1) (absorb s)) \<and> stop_seen (2 * k + 1) (absorb s) \<longrightarrow>
      fst (inter_file_delay e dly tot idx s) = Break
    \<and> out (snd (inter_file_delay e dly tot idx s)) =
        out s @ countdown ''Next upload in'' (int idx + 1) (nat dly) k)
 \<and> (0 < dly \<and> idx < tot \<and> \<not> stop_seen (2 * nat dly - 1) (absorb s) \<longrightarrow>
      fst (inter_file_delay e dly tot idx s) =
        (if RECONNECT_THRESH \<le> dly \<and> \<not> active_after e idx \<and> \<not> reconnect_after_ok e idx
         then Break else Next)
    \<and> out (snd (inter_file_delay e dly tot idx s)) =
        out s @ countdown ''Next upload in'' (int idx + 1) (nat dly) (nat dly)
          @ [Timer Cleared, Timer Cleared]
          @ (if RECONNECT_THRESH \<le> dly then
               IsActiveCall #
                 (if \<not> active_after e idx then
                    [Log ReconnectingAfterDelay, ConnectCall,
                     Log (if reconnect_after_ok e idx then Reconnected else ReconnectFailed)]
                  else [])
             else []))
 \<and> (\<not> stop_flag (absorb s) \<and> upload_file e rdir tot idx fpath (absorb s) = (Next, s2)
      \<and> checkpoint tc idx s2 = (Next, s3) \<longrightarrow>
      iteration e rdir dly tc tot idx fpath s = inter_file_delay e dly tot idx s3)
 \<and> (iteration e rdir dly tc tot idx fpath s = (Next, s1) \<longrightarrow>
      upload_loop e rdir dly tc tot idx (fpath # rest) s =
        upload_loop e rdir dly tc tot (Suc idx) rest s1)
 \<and> (iteration e rdir dly tc tot idx fpath s = (Break, s1) \<longrightarrow>
      upload_loop e rdir dly tc tot idx (fpath # rest) s = (Break, s1))
 \<and> (run c files e (init script) = (st, s') \<and> Log ReconnectFailed \<in> set (out s') \<longrightarrow>
      st = Returns
    \<and> (\<exists>pre. out s' = pre @ [Log ReconnectFailed, CloseSftp, CloseTransport, Done True]))"
proof (intro conjI impI)
  assume "dly = 0 \<or> \<not> idx < tot"
  then show "inter_file_delay e dly tot idx s = (Next, s)"
    by (auto simp: inter_file_delay_def)
next
  assume a: "dly \<noteq> 0 \<and> idx < tot \<and> stop_flag (absorb s)"
  then show "inter_file_delay e dly tot idx s = (Next, absorb s)"
    by (simp add: inter_file_delay_def Let_def)
  show "out (absorb s) = out s" by simp
next
  assume a: "dly < 0 \<and> idx < tot \<and> \<not> stop_flag (absorb s)"
  then have n: "nat dly = 0" and r: "\<not> RECONNECT_THRESH \<le> dly"
    by (simp_all add: RECONNECT_THRESH_def)
  from a n r show "fst (inter_file_delay e dly tot idx s) = Next"
    by (simp add: inter_file_delay_def sleep_def Let_def)
  from a n r show "out (snd (inter_file_delay e dly tot idx s)) = out s @ [Timer Cleared, Timer Cleared]"
    by (simp add: inter_file_delay_def sleep_def Let_def)
next
  assume a: "0 < dly \<and> idx < tot \<and> \<not> stop_flag (absorb s) \<and> k < nat dly
      \<and> (k = 0 \<or> \<not> stop_seen (2 * k - 1) (absorb s)) \<and> stop_seen (2 * k + 1) (absorb s)"
  have ne: "''Next upload in'' \<noteq> []" by simp
  from a have k: "k < nat dly" and b: "k = 0 \<or> \<not> stop_seen (2 * k - 1) (absorb s)"
    and c: "stop_seen (2 * k + 1) (absorb s)" by simp_all
  from sleep_loop_cut [OF ne k b c, of "int idx + 1"]
  have sl: "\<not> fst (sleep dly ''Next upload in'' (int idx + 1) (absorb s))"
    "out (snd (sleep dly ''Next upload in'' (int idx + 1) (absorb s))) =
       out s @ countdown ''Next upload in'' (int idx + 1) (nat dly) k"
    by (simp_all add: sleep_def)
  from a sl show "fst (inter_file_delay e dly tot idx s) = Break"
    by (auto simp: inter_file_delay_def Let_def split: prod.splits bool.splits)
  from a sl show "out (snd (inter_file_delay e dly tot idx s)) =
        out s @ countdown ''Next upload in'' (int idx + 1) (nat dly) k"
    by (auto simp: inter_file_delay_def Let_def split: prod.splits bool.splits)
next
  assume a: "0 < dly \<and> idx < tot \<and> \<not> stop_seen (2 * nat dly - 1) (absorb s)"
  have ne: "''Next upload in'' \<noteq> []" by simp
  from a have b: "nat dly = 0 \<or> \<not> stop_seen (2 * nat dly - 1) (absorb s)" by simp
  from a have "\<not> stop_seen 0 (absorb s)"
    using stop_seen_mono [of 0 "absorb s" "2 * nat dly - 1"] by blast
  then have f: "\<not> stop_flag (absorb s)" by simp
  from sleep_loop_full [OF ne b, of "int idx + 1"]
  have sl: "fst (sleep dly ''Next upload in'' (int idx + 1) (absorb s))"
    "out (snd (sleep dly ''Next upload in'' (int idx + 1) (absorb s))) =
       out s @ countdown ''Next upload in'' (int idx + 1) (nat dly) (nat dly) @ [Timer Cleared]"
    by (simp_all add: sleep_def)
  from a f sl show "fst (inter_file_delay e dly tot idx s) =
        (if RECONNECT_THRESH \<le> dly \<and> \<not> active_after e idx \<and> \<not> reconnect_after_ok e idx
         then Break else Next)"
    by (auto simp: inter_file_delay_def Let_def split: prod.splits bool.splits)
  from a f sl show "out (snd (inter_file_delay e dly tot idx s)) =
        out s @ countdown ''Next upload in'' (int idx + 1) (nat dly) (nat dly)
          @ [Timer Cleared, Timer Cleared]
          @ (if RECONNECT_THRESH \<le> dly then
               IsActiveCall #
                 (if \<not> active_after e idx then
                    [Log ReconnectingAfterDelay, ConnectCall,
                     Log (if reconnect_after_ok e idx then Reconnected else ReconnectFailed)]
                  else [])
             else [])"
    by (auto simp: inter_file_delay_def Let_def split: prod.splits bool.splits)
next
  assume "\<not> stop_flag (absorb s) \<and> upload_file e rdir tot idx fpath (absorb s) = (Next, s2)
      \<and> checkpoint tc idx s2 = (Next, s3)"
  then show "iteration e rdir dly tc tot idx fpath s = inter_file_delay e dly tot idx s3"
    by (simp add: iteration_def Let_def)
next
  assume "iteration e rdir dly tc tot idx fpath s = (Next, s1)"
  then show "upload_loop e rdir dly tc tot idx (fpath # rest) s =
        upload_loop e rdir dly tc tot (Suc idx) rest s1" by simp
next
  assume "iteration e rdir dly tc tot idx fpath s = (Break, s1)"
  then show "upload_loop e rdir dly tc tot idx (fpath # rest) s = (Break, s1)" by simp
next
  assume r: "run c files e (init script) = (st, s') \<and> Log ReconnectFailed \<in> set (out s')"
  have f: "fatal_log (Log ReconnectFailed)" by simp
  from r run_fatal [OF _ f, of c files e script st s']
  show "st = Returns" by blast
  from r run_fatal [OF _ f, of c files e script st s']
  show "\<exists>pre. out s' = pre @ [Log ReconnectFailed, CloseSftp, CloseTransport, Done True]" by blast
qed

theorem c8_inter_file_delay_witness:
  "inter_file_delay drop_env 0 2 1 (init []) = (Next, init [])
   \<and> inter_file_delay drop_env 2 2 1 (init [[Stop]]) = (Next, absorb (init [[Stop]]))
   \<and> (fst (inter_file_delay drop_env (- 1) 2 1 (init [])) = Next
      \<and> out (snd (inter_file_delay drop_env (- 1) 2 1 (init []))) = [Timer Cleared, Timer Cleared])
   \<and> (fst (inter_file_delay drop_env 3 2 1 (init [[], [], [Stop]])) = Break
      \<and> out (snd (inter_file_delay drop_env 3 2 1 (init [[], [], [Stop]]))) =
          [Timer (Countdown ''Next upload in'' 0 3 (Some 2)), Wait1])
   \<and> (fst (inter_file_delay drop_env 2 2 1 (init [])) = Next
      \<and> out (snd (inter_file_delay drop_env 2 2 1 (init []))) =
          [Timer (Countdown ''Next upload in'' 0 2 (Some 2)), Wait1,
           Timer (Countdown ''Next upload in'' 0 1 (Some 2)), Wait1,
           Timer Cleared, Timer Cleared])
   \<and> (fst (inter_file_delay drop_env 55 2 1 (init [])) = Break
      \<and> out (snd (inter_file_delay drop_env 55 2 1 (init []))) =
          countdown ''Next upload in'' 2 55 55
            @ [Timer Cleared, Timer Cleared, IsActiveCall, Log ReconnectingAfterDelay,
               ConnectCall, Log ReconnectFailed])
   \<and> (\<exists>pre. out (snd (run (demo_cfg\<lparr>delay := Some 55, use_delay := True\<rparr>) [''a.txt'', ''b.txt'']
                          drop_env (init []))) =
          pre @ [Log ReconnectFailed, CloseSftp, CloseTransport, Done True])"
proof -
  let ?c = "demo_cfg\<lparr>delay := Some 55, use_delay := True\<rparr>"
  let ?fs = "[''a.txt'', ''b.txt'']"
  let ?r = "run ?c ?fs drop_env (init [])"
  have a: "inter_file_delay drop_env 0 2 1 (init []) = (Next, init [])"
    using c8_inter_file_delay [where dly = 0 and idx = 1 and tot = 2 and s = "init []"
        and e = drop_env] by simp
  have hb: "(2::int) \<noteq> 0 \<and> (1::nat) < 2 \<and> stop_flag (absorb (init [[Stop]]))"
    by (simp add: absorb_def init_def stop_def reply_put_def)
  have b: "inter_file_delay drop_env 2 2 1 (init [[Stop]]) = (Next, absorb (init [[Stop]]))"
    using c8_inter_file_delay [where dly = 2 and idx = 1 and tot = 2 and s = "init [[Stop]]"
        and e = drop_env] hb by simp
  have hc: "(- 1::int) < 0 \<and> (1::nat) < 2 \<and> \<not> stop_flag (absorb (init []))"
    by (simp add: absorb_def init_def)
  have c: "fst (inter_file_delay drop_env (- 1) 2 1 (init [])) = Next
      \<and> out (snd (inter_file_delay drop_env (- 1) 2 1 (init []))) = [Timer Cleared, Timer Cleared]"
    using c8_inter_file_delay [where dly = "- 1" and idx = 1 and tot = 2 and s = "init []"
        and e = drop_env] hc by (simp add: init_def)
  have hd: "(0::int) < 3 \<and> (1::nat) < 2 \<and> \<not> stop_flag (absorb (init [[], [], [Stop]]))
      \<and> (1::nat) < nat 3
      \<and> ((1::nat) = 0 \<or> \<not> stop_seen (2 * 1 - 1) (absorb (init [[], [], [Stop]])))
      \<and> stop_seen (2 * 1 + 1) (absorb (init [[], [], [Stop]]))"
    by (simp add: absorb_def init_def stop_seen_def)
  have d: "fst (inter_file_delay drop_env 3 2 1 (init [[], [], [Stop]])) = Break
      \<and> out (snd (inter_file_delay drop_env 3 2 1 (init [[], [], [Stop]]))) =
          [Timer (Countdown ''Next upload in'' 0 3 (Some 2)), Wait1]"
    using c8_inter_file_delay [where dly = 3 and idx = 1 and tot = 2
        and s = "init [[], [], [Stop]]" and e = drop_env and k = 1] hd
    by (simp add: init_def)
  have he: "(0::int) < 2 \<and> (1::nat) < 2 \<and> \<not> stop_seen (2 * nat 2 - 1) (absorb (init []))"
    by (simp add: absorb_def init_def stop_seen_def)
  have e: "fst (inter_file_delay drop_env 2 2 1 (init [])) = Next
      \<and> out (snd (inter_file_delay drop_env 2 2 1 (init []))) =
          [Timer (Countdown ''Next upload in'' 0 2 (Some 2)), Wait1,
           Timer (Countdown ''Next upload in'' 0 1 (Some 2)), Wait1,
           Timer Cleared, Timer Cleared]"
    using c8_inter_file_delay [where dly = 2 and idx = 1 and tot = 2 and s = "init []"
        and e = drop_env] he
    by (simp add: init_def RECONNECT_THRESH_def numeral_2_eq_2)
  have hf: "(0::int) < 55 \<and> (1::nat) < 2 \<and> \<not> stop_seen (2 * nat 55 - 1) (absorb (init []))"
    by (simp add: absorb_def init_def stop_seen_def)
  have th: "RECONNECT_THRESH \<le> 55 \<and> \<not> active_after drop_env 1 \<and> \<not> reconnect_after_ok drop_env 1"
    by (simp add: RECONNECT_THRESH_def drop_env_def)
  have rf: "Log ReconnectFailed \<in> set (out (snd ?r))" by code_simp
  have pr: "?r = (fst ?r, snd ?r)" by simp
  have f: "(fst (inter_file_delay drop_env 55 2 1 (init [])) = Break
      \<and> out (snd (inter_file_delay drop_env 55 2 1 (init []))) =
          countdown ''Next upload in'' 2 55 55
            @ [Timer Cleared, Timer Cleared, IsActiveCall, Log ReconnectingAfterDelay,
               ConnectCall, Log ReconnectFailed])
     \<and> (\<exists>pre. out (snd ?r) = pre @ [Log ReconnectFailed, CloseSftp, CloseTransport, Done True])"
    using c8_inter_file_delay [where dly = 55 and idx = 1 and tot = 2 and s = "init []"
        and e = drop_env and c = ?c and files = ?fs and script = "[]" and st = "fst ?r"
        and s' = "snd ?r"] hf th rf pr
    by (simp add: init_def)
  from a b c d e f show ?thesis by simp
qed

text \<open>
  C10. A loop round that gets past the stop check at its top, for a missing file, compared
  with the same round in a world where the file exists and its upload stage is not cut short
  by a failed reconnect (the two worlds agree on what the session does after the delay).
  The round for the missing file sends the existence test and the skip line, with neither
  the liveness check nor the upload; from there on both rounds add the very same events, the
  confirmation request among them exactly when \<open>idx\<close> is the test count, leave the round
  the same way and leave the same shared state.
\<close>

theorem c10_missing_file:
  assumes "\<not> stop_flag (absorb s)"
    and "\<not> file_exists e idx"
    and "fst (upload_file e' rdir tot idx fpath (absorb s)) = Next"
    and "active_after e' idx = active_after e idx"
    and "reconnect_after_ok e' idx = reconnect_after_ok e idx"
  shows "\<exists>tail.
       out (snd (iteration e rdir dly tc tot idx fpath s)) =
         out s @ [ExistsCall fpath, Log (Skip idx tot (basename fpath))] @ tail
     \<and> out (snd (iteration e' rdir dly tc tot idx fpath s)) =
         out (snd (upload_file e' rdir tot idx fpath (absorb s))) @ tail
     \<and> (Confirm \<in> set tail \<longleftrightarrow> tc \<noteq> 0 \<and> int idx = tc)
     \<and> fst (iteration e rdir dly tc tot idx fpath s) = fst (iteration e' rdir dly tc tot idx fpath s)
     \<and> same_shared (snd (iteration e rdir dly tc tot idx fpath s))
                    (snd (iteration e' rdir dly tc tot idx fpath s))"
proof -
  let ?sA = "emit (Log (Skip idx tot (basename fpath))) (emit (ExistsCall fpath) (absorb s))"
  obtain sB where uB: "upload_file e' rdir tot idx fpath (absorb s) = (Next, sB)"
    using assms(3) by (metis prod.collapse)
  from assms(2) have uA: "upload_file e rdir tot idx fpath (absorb s) = (Next, ?sA)"
    by (rule upload_file_missing)
  have "same_shared sB (absorb s)" using upload_file_shared [of e' rdir tot idx fpath "absorb s"] uB
    by simp
  then have ss: "same_shared ?sA sB" by (simp add: same_shared_sym)
  let ?ra = "case checkpoint tc idx ?sA of (Next, s3) \<Rightarrow> inter_file_delay e dly tot idx s3 | r \<Rightarrow> r"
  let ?rb = "case checkpoint tc idx sB of (Next, s3) \<Rightarrow> inter_file_delay e' dly tot idx s3 | r \<Rightarrow> r"
  have ia: "iteration e rdir dly tc tot idx fpath s = ?ra"
    by (rule iteration_after_upload [OF assms(1) uA])
  have ib: "iteration e' rdir dly tc tot idx fpath s = ?rb"
    by (rule iteration_after_upload [OF assms(1) uB])
  from after_upload_rel [OF ss assms(4,5) [symmetric], where tc = tc and dly = dly and tot = tot]
  obtain tail where
    r: "fst ?ra = fst ?rb" "same_shared (snd ?ra) (snd ?rb)"
       "out (snd ?ra) = out ?sA @ tail" "out (snd ?rb) = out sB @ tail"
    and cf: "Confirm \<in> set tail \<longleftrightarrow> tc \<noteq> 0 \<and> int idx = tc"
    by (auto simp: stage_rel_def)
  from r(3) have "out (snd ?ra) = out s @ [ExistsCall fpath, Log (Skip idx tot (basename fpath))] @ tail"
    by simp
  with r cf uB show ?thesis unfolding ia ib by (intro exI [of _ tail]) simp
qed

theorem c10_missing_file_witness:
  "\<exists>tail.
       out (snd (iteration missing_env ''up'' 2 1 2 1 ''a/b.txt'' (init [[], [Answer True]]))) =
         [ExistsCall ''a/b.txt'', Log (Skip 1 2 ''b.txt'')] @ tail
     \<and> out (snd (iteration demo_env ''up'' 2 1 2 1 ''a/b.txt'' (init [[], [Answer True]]))) =
         [ExistsCall ''a/b.txt'', IsActiveCall, Log (Uploading 1 2 ''b.txt'' ''up/b.txt''),
          PutCall ''a/b.txt'' ''up/b.txt'', Log (UploadDone 1 2)] @ tail
     \<and> Confirm \<in> set tail"
proof -
  let ?s = "init [[], [Answer True]]"
  have h1: "\<not> stop_flag (absorb ?s)" by (simp add: absorb_def)
  have h2: "\<not> file_exists missing_env 1" by (simp add: missing_env_def)
  have up: "upload_file demo_env ''up'' 2 1 ''a/b.txt'' (absorb ?s) =
      (Next, (absorb ?s)\<lparr>out := [ExistsCall ''a/b.txt'', IsActiveCall,
          Log (Uploading 1 2 ''b.txt'' ''up/b.txt''), PutCall ''a/b.txt'' ''up/b.txt'',
          Log (UploadDone 1 2)]\<rparr>)"
    by (simp add: upload_file_def demo_env_def basename_def Let_def emit_def absorb_def init_def)
  then have h3: "fst (upload_file demo_env ''up'' 2 1 ''a/b.txt'' (absorb ?s)) = Next" by simp
  have h4: "active_after demo_env 1 = active_after missing_env 1"
    and h5: "reconnect_after_ok demo_env 1 = reconnect_after_ok missing_env 1"
    by (simp_all add: missing_env_def)
  have b: "basename ''a/b.txt'' = ''b.txt''" by (simp add: basename_def)
  from c10_missing_file [OF h1 h2 h3 h4 h5, of 2 1] up b show ?thesis by simp blast
qed

text \<open>
  C3. Per-file errors: for a missing file the upload stage sends the skip line and goes on;
  for a failed \<^verbatim>\<open>sftp.put\<close> it sends the error line and goes on. The loop as a whole is
  left early only with the stop flag set, after "Reconnect failed" or after a declined test
  batch, never on a per-file error; and when it runs off its end, every file has had its
  existence test, in order. Connection-level errors: a reconnect that fails makes the
  upload stage \<^verbatim>\<open>break\<close>, and in every run the line "Reconnect failed" is followed by the
  teardown and \<open>Done True\<close> only; when the connect stage fails the run ends with
  "Connection failed" and \<open>Done False\<close>, and no file has been looked at.
\<close>

theorem c3_error_propagation:
  "(\<not> file_exists e idx \<longrightarrow>
      upload_file e rdir tot idx fpath s =
        (Next, emit (Log (Skip idx tot (basename fpath))) (emit (ExistsCall fpath) s)))
 \<and> (file_exists e idx \<and> (active_before e idx \<or> reconnect_ok e idx) \<and> \<not> put_ok e idx \<longrightarrow>
      fst (upload_file e rdir tot idx fpath s) = Next
    \<and> last (out (snd (upload_file e rdir tot idx fpath s))) = Log (UploadError idx tot))
 \<and> (file_exists e idx \<and> \<not> active_before e idx \<and> \<not> reconnect_ok e idx \<longrightarrow>
      fst (upload_file e rdir tot idx fpath s) = Break
    \<and> last (out (snd (upload_file e rdir tot idx fpath s))) = Log ReconnectFailed)
 \<and> (upload_loop e rdir dly tc tot idx files s = (k, s1) \<longrightarrow>
      (k = Next \<longrightarrow> (\<exists>evs. out s1 = out s @ evs \<and> filter is_exists evs = map ExistsCall files))
    \<and> (k = Break \<longrightarrow> stop_flag s1 \<or> last (out s1) = Log ReconnectFailed
                        \<or> last (out s1) = Log StoppedAfterTest))
 \<and> (run c files e (init script) = (st, s') \<longrightarrow>
      (start_delay_min c = Some m \<and> fst (initial_delay m (init script))
         \<and> (\<not> connect_ok e \<or> \<not> home_ok e) \<longrightarrow>
         st = Returns
       \<and> (\<exists>pre. out s' = pre @ [Log ConnectionFailed, Done False] \<and> filter is_exists pre = []))
    \<and> (Log ReconnectFailed \<in> set (out s') \<longrightarrow>
         st = Returns
       \<and> (\<exists>pre. out s' = pre @ [Log ReconnectFailed, CloseSftp, CloseTransport, Done True])))"
proof (intro conjI impI)
  assume "\<not> file_exists e idx"
  then show "upload_file e rdir tot idx fpath s =
        (Next, emit (Log (Skip idx tot (basename fpath))) (emit (ExistsCall fpath) s))"
    by (rule upload_file_missing)
next
  assume a: "file_exists e idx \<and> (active_before e idx \<or> reconnect_ok e idx) \<and> \<not> put_ok e idx"
  then show "fst (upload_file e rdir tot idx fpath s) = Next"
    by (auto simp: upload_file_def Let_def)
  from a show "last (out (snd (upload_file e rdir tot idx fpath s))) = Log (UploadError idx tot)"
    by (auto simp: upload_file_def Let_def)
next
  assume a: "file_exists e idx \<and> \<not> active_before e idx \<and> \<not> reconnect_ok e idx"
  then show "fst (upload_file e rdir tot idx fpath s) = Break"
    by (auto simp: upload_file_def Let_def)
  from a show "last (out (snd (upload_file e rdir tot idx fpath s))) = Log ReconnectFailed"
    by (auto simp: upload_file_def Let_def)
next
  assume "upload_loop e rdir dly tc tot idx files s = (k, s1)" "k = Next"
  then have "upload_loop e rdir dly tc tot idx files s = (Next, s1)" by simp
  then show "\<exists>evs. out s1 = out s @ evs \<and> filter is_exists evs = map ExistsCall files"
    by (rule upload_loop_visit)
next
  assume "upload_loop e rdir dly tc tot idx files s = (k, s1)" "k = Break"
  then have "upload_loop e rdir dly tc tot idx files s = (Break, s1)" by simp
  then show "stop_flag s1 \<or> last (out s1) = Log ReconnectFailed \<or> last (out s1) = Log StoppedAfterTest"
    by (rule upload_loop_break_cause)
next
  assume r: "run c files e (init script) = (st, s')"
    and f: "start_delay_min c = Some m \<and> fst (initial_delay m (init script))
         \<and> (\<not> connect_ok e \<or> \<not> home_ok e)"
  from f have sm: "start_delay_min c = Some m" by simp
  from run_shape [OF r sm] f obtain ev1 where ev1: "list_all start_event ev1"
    and sh: "st = Returns \<and>
       (out s' = ev1 @ [Log (Connecting (host c) (port c)), ConnectCall, Log ConnectionFailed, Done False]
      \<or> out s' = ev1 @ [Log (Connecting (host c) (port c)), ConnectCall, NormalizeCall,
                        Log ConnectionFailed, Done False])"
    by auto
  from sh show "st = Returns" by simp
  from ev1 have ne: "filter is_exists ev1 = []" by (rule start_not_exists)
  from sh have "out s' = ev1 @ [Log (Connecting (host c) (port c)), ConnectCall, Log ConnectionFailed, Done False]
      \<or> out s' = ev1 @ [Log (Connecting (host c) (port c)), ConnectCall, NormalizeCall,
                        Log ConnectionFailed, Done False]" by simp
  then show "\<exists>pre. out s' = pre @ [Log ConnectionFailed, Done False] \<and> filter is_exists pre = []"
  proof
    assume "out s' = ev1 @ [Log (Connecting (host c) (port c)), ConnectCall, Log ConnectionFailed, Done False]"
    with ne show ?thesis
      by (intro exI [of _ "ev1 @ [Log (Connecting (host c) (port c)), ConnectCall]"]) simp
  next
    assume "out s' = ev1 @ [Log (Connecting (host c) (port c)), ConnectCall, NormalizeCall,
                        Log ConnectionFailed, Done False]"
    with ne show ?thesis
      by (intro exI [of _ "ev1 @ [Log (Connecting (host c) (port c)), ConnectCall, NormalizeCall]"]) simp
  qed
next
  assume r: "run c files e (init script) = (st, s')" and m: "Log ReconnectFailed \<in> set (out s')"
  have f: "fatal_log (Log ReconnectFailed)" by simp
  from run_fatal [OF r f m] show "st = Returns" by blast
  from run_fatal [OF r f m]
  show "\<exists>pre. out s' = pre @ [Log ReconnectFailed, CloseSftp, CloseTransport, Done True]" by blast
qed

theorem c3_error_propagation_witness:
  "upload_file missing_env ''up'' 2 1 ''a.txt'' (init []) =
     (Next, emit (Log (Skip 1 2 (basename ''a.txt''))) (emit (ExistsCall ''a.txt'') (init [])))
 \<and> (fst (upload_file fail_env ''up'' 2 1 ''a.txt'' (init [])) = Next
    \<and> last (out (snd (upload_file fail_env ''up'' 2 1 ''a.txt'' (init [])))) = Log (UploadError 1 2))
 \<and> (\<exists>evs. out (snd (upload_loop fail_env ''up'' 0 0 2 1 [''a.txt'', ''b.txt''] (init []))) = evs
          \<and> filter is_exists evs = [ExistsCall ''a.txt'', ExistsCall ''b.txt''])
 \<and> stop_flag (snd (upload_loop demo_env ''up'' 0 0 2 1 [''a.txt'', ''b.txt''] (init [[Stop]])))
 \<and> (fst (upload_file dead_env ''up'' 2 1 ''a.txt'' (init [])) = Break
    \<and> last (out (snd (upload_file dead_env ''up'' 2 1 ''a.txt'' (init [])))) = Log ReconnectFailed)
 \<and> (\<exists>pre. out (snd (run demo_cfg [''a.txt'', ''b.txt''] dead_env (init []))) =
            pre @ [Log ReconnectFailed, CloseSftp, CloseTransport, Done True])
 \<and> (\<exists>pre. out (snd (run demo_cfg [''a.txt'', ''b.txt''] refuse_env (init []))) =
            pre @ [Log ConnectionFailed, Done False] \<and> filter is_exists pre = [])"
proof -
  let ?fs = "[''a.txt'', ''b.txt'']"
  have A: "upload_file missing_env ''up'' 2 1 ''a.txt'' (init []) =
     (Next, emit (Log (Skip 1 2 (basename ''a.txt''))) (emit (ExistsCall ''a.txt'') (init [])))"
  proof -
    have "\<not> file_exists missing_env 1" by (simp add: missing_env_def)
    with c3_error_propagation [where e = missing_env and idx = 1 and rdir = "''up''" and tot = 2
        and fpath = "''a.txt''" and s = "init []"]
    show ?thesis by blast
  qed
  let ?lf = "upload_loop fail_env ''up'' 0 0 2 1 ?fs (init [])"
  have B: "(fst (upload_file fail_env ''up'' 2 1 ''a.txt'' (init [])) = Next
    \<and> last (out (snd (upload_file fail_env ''up'' 2 1 ''a.txt'' (init [])))) = Log (UploadError 1 2))
    \<and> (\<exists>evs. out (snd ?lf) = evs \<and> filter is_exists evs = [ExistsCall ''a.txt'', ExistsCall ''b.txt''])"
  proof -
    have h: "file_exists fail_env 1 \<and> (active_before fail_env 1 \<or> reconnect_ok fail_env 1)
        \<and> \<not> put_ok fail_env 1" by (simp add: fail_env_def demo_env_def)
    have k: "fst ?lf = Next" by code_simp
    have p: "?lf = (fst ?lf, snd ?lf)" by simp
    from c3_error_propagation [where e = fail_env and idx = 1 and rdir = "''up''" and tot = 2
        and fpath = "''a.txt''" and s = "init []" and dly = 0 and tc = 0 and files = ?fs
        and k = "fst ?lf" and ?s1.0 = "snd ?lf"] h k p
    show ?thesis by simp
  qed
  let ?ls = "upload_loop demo_env ''up'' 0 0 2 1 ?fs (init [[Stop]])"
  have C: "stop_flag (snd ?ls)"
  proof -
    have k: "fst ?ls = Break" by code_simp
    have l: "last (out (snd ?ls)) = Log StoppedByUser" by code_simp
    have p: "?ls = (fst ?ls, snd ?ls)" by simp
    from c3_error_propagation [where e = demo_env and idx = 1 and rdir = "''up''" and tot = 2
        and s = "init [[Stop]]" and dly = 0 and tc = 0 and files = ?fs
        and k = "fst ?ls" and ?s1.0 = "snd ?ls"] k l p
    show ?thesis by simp
  qed
  let ?rd = "run demo_cfg ?fs dead_env (init [])"
  have D: "(fst (upload_file dead_env ''up'' 2 1 ''a.txt'' (init [])) = Break
    \<and> last (out (snd (upload_file dead_env ''up'' 2 1 ''a.txt'' (init [])))) = Log ReconnectFailed)
    \<and> (\<exists>pre. out (snd ?rd) = pre @ [Log ReconnectFailed, CloseSftp, CloseTransport, Done True])"
  proof -
    have h: "file_exists dead_env 1 \<and> \<not> active_before dead_env 1 \<and> \<not> reconnect_ok dead_env 1"
      by (simp add: dead_env_def demo_env_def)
    have m: "Log ReconnectFailed \<in> set (out (snd ?rd))" by code_simp
    have p: "?rd = (fst ?rd, snd ?rd)" by simp
    from c3_error_propagation [where e = dead_env and idx = 1 and rdir = "''up''" and tot = 2
        and fpath = "''a.txt''" and s = "init []" and c = demo_cfg and files = ?fs
        and script = "[]" and st = "fst ?rd" and s' = "snd ?rd"] h m p
    show ?thesis by simp
  qed
  let ?rr = "run demo_cfg ?fs refuse_env (init [])"
  have E: "\<exists>pre. out (snd ?rr) = pre @ [Log ConnectionFailed, Done False] \<and> filter is_exists pre = []"
  proof -
    have h: "start_delay_min demo_cfg = Some 0 \<and> fst (initial_delay 0 (init []))
        \<and> (\<not> connect_ok refuse_env \<or> \<not> home_ok refuse_env)"
      by (simp add: initial_delay_def demo_cfg_def refuse_env_def)
    have p: "?rr = (fst ?rr, snd ?rr)" by simp
    from c3_error_propagation [where e = refuse_env and c = demo_cfg and files = ?fs
        and script = "[]" and st = "fst ?rr" and s' = "snd ?rr" and m = 0] h p
    show ?thesis by simp
  qed
  from A B C D E show ?thesis by simp
qed

text \<open>
  C2 (as amended). With test count \<open>k\<close>, \<open>1 \<le> k \<le> N\<close>, a run sends at most one confirmation
  request, and sends it exactly when the upload stage of file \<open>k\<close> comes to its end (upload
  done, upload failed, or file skipped): either the run's events hold no confirmation
  request and no end of that stage, or they are \<open>pre\<close>, the end of the stage, the line
  "Test batch done", the request, \<open>post\<close>, with neither in \<open>pre\<close> or \<open>post\<close>. Then \<open>post\<close> is
  empty and the run waits for the reply, or it is "Stopped after test batch" followed by the
  teardown and \<open>Done True\<close>, or it starts with "Continuing" and the run returns. Which of
  the three is decided by the reply queue when \<^verbatim>\<open>reply_q.get()\<close> is reached: empty for
  ever, \<open>False\<close> first, or \<open>True\<close> first.
\<close>

theorem c2_checkpoint:
  assumes "use_test c" and "test_n c = Some (int k)" and "1 \<le> k" and "k \<le> length files"
    and "run c files e (init script) = (st, s')"
  shows "((clean k (out s'))
        \<or> (\<exists>pre ev post. out s' = pre @ ev # Log (TestBatchDone (int k)) # Confirm # post
             \<and> upload_end k ev \<and> clean k pre \<and> clean k post
             \<and> ((post = [] \<and> st = Blocks)
               \<or> (post = [Log StoppedAfterTest, CloseSftp, CloseTransport, Done True] \<and> st = Returns)
               \<or> (\<exists>post'. post = Log Continuing # post' \<and> st = Returns))))
     \<and> (reply_q (absorb s0) = [] \<longrightarrow>
          checkpoint (int k) k s0 =
            (Block, emit Confirm (emit (Log (TestBatchDone (int k))) (absorb s0))))
     \<and> (\<forall>d q. reply_q (absorb s0) = d # q \<longrightarrow>
          checkpoint (int k) k s0 =
            (if d then Next else Break,
             emit (Log (if d then Continuing else StoppedAfterTest))
               (emit Confirm (emit (Log (TestBatchDone (int k))) ((absorb s0)\<lparr>reply_q := q\<rparr>)))))"
proof (intro conjI impI allI)
  have k0: "0 < k" using assms(3) by simp
  let ?goal = "(clean k (out s'))
        \<or> (\<exists>pre ev post. out s' = pre @ ev # Log (TestBatchDone (int k)) # Confirm # post
             \<and> upload_end k ev \<and> clean k pre \<and> clean k post
             \<and> ((post = [] \<and> st = Blocks)
               \<or> (post = [Log StoppedAfterTest, CloseSftp, CloseTransport, Done True] \<and> st = Returns)
               \<or> (\<exists>post'. post = Log Continuing # post' \<and> st = Returns)))"
  show ?goal
  proof (cases "start_delay_min c")
    case None
    with assms(5) have "s' = init script" by (simp add: run_def)
    then have "clean k (out s')" by (simp add: init_def clean_def)
    then show ?goal by simp
  next
    case (Some m)
  from run_shape [OF assms(5) Some] obtain ev1 where st: "list_all start_event ev1" and
    sh: "(st = Returns \<and> \<not> fst (initial_delay m (init script))
         \<and> out s' = ev1 @ [Log StoppedInitialDelay, Done False])
    \<or> (st = Returns \<and> fst (initial_delay m (init script)) \<and> \<not> connect_ok e
         \<and> out s' = ev1 @ [Log (Connecting (host c) (port c)), ConnectCall,
                           Log ConnectionFailed, Done False])
    \<or> (st = Returns \<and> fst (initial_delay m (init script)) \<and> connect_ok e \<and> \<not> home_ok e
         \<and> out s' = ev1 @ [Log (Connecting (host c) (port c)), ConnectCall, NormalizeCall,
                           Log ConnectionFailed, Done False])
    \<or> (st = Raises \<and> fst (initial_delay m (init script)) \<and> connect_ok e \<and> home_ok e
         \<and> (get_delay c = None \<or> get_test_count c = None)
         \<and> out s' = ev1 @ [Log (Connecting (host c) (port c)), ConnectCall, NormalizeCall,
                           Log Connected])
    \<or> (fst (initial_delay m (init script)) \<and> connect_ok e \<and> home_ok e
         \<and> (\<exists>dly tc kk s2 s3. get_delay c = Some dly \<and> get_test_count c = Some tc
               \<and> out s2 = ev1 @ [Log (Connecting (host c) (port c)), ConnectCall,
                                  NormalizeCall, Log Connected]
               \<and> upload_loop e (rstrip_slash (remote_dir c)) dly tc (length files) 1 files s2
                    = (kk, s3)
               \<and> (if kk = Block then st = Blocks \<and> s' = s3
                   else st = Returns \<and> s' = teardown s3)))" by blast
  from st have c1: "clean k ev1" by (rule start_clean)
  from sh show ?goal
  proof (elim disjE conjE exE)
    assume "out s' = ev1 @ [Log StoppedInitialDelay, Done False]"
    with c1 show ?goal by simp
  next
    assume "out s' = ev1 @ [Log (Connecting (host c) (port c)), ConnectCall,
                           Log ConnectionFailed, Done False]"
    with c1 show ?goal by simp
  next
    assume "out s' = ev1 @ [Log (Connecting (host c) (port c)), ConnectCall, NormalizeCall,
                           Log ConnectionFailed, Done False]"
    with c1 show ?goal by simp
  next
    assume "out s' = ev1 @ [Log (Connecting (host c) (port c)), ConnectCall, NormalizeCall,
                           Log Connected]" "get_delay c = None"
    with c1 show ?goal by simp
  next
    assume "out s' = ev1 @ [Log (Connecting (host c) (port c)), ConnectCall, NormalizeCall,
                           Log Connected]" "get_test_count c = None"
    with c1 show ?goal by simp
  next
    fix dly tc kk s2 s3
    assume o2: "out s2 = ev1 @ [Log (Connecting (host c) (port c)), ConnectCall,
                                       NormalizeCall, Log Connected]"
      and gt: "get_test_count c = Some tc"
      and lp0: "upload_loop e (rstrip_slash (remote_dir c)) dly tc (length files) 1 files s2
                  = (kk, s3)"
      and fin: "if kk = Block then st = Blocks \<and> s' = s3 else st = Returns \<and> s' = teardown s3"
    from gt assms(1,2) have "tc = int k" by (simp add: get_test_count_def)
    with lp0 have lp: "upload_loop e (rstrip_slash (remote_dir c)) dly (int k) (length files) 1
        files s2 = (kk, s3)" by simp
    from c1 o2 have c2: "clean k (out s2)" by simp
    from upload_loop_shape [OF lp k0] assms(3,4) obtain evs where
      evs: "out s3 = out s2 @ evs" "(clean k evs \<and> kk = Break) \<or> confirmed_shape k kk evs"
      by (auto split: if_splits)
    from evs(2) show ?goal
    proof
      assume a: "clean k evs \<and> kk = Break"
      with fin evs(1) c2 have "clean k (out s')" by simp
      then show ?goal by simp
    next
      assume "confirmed_shape k kk evs"
      then obtain pre ev post where
        d: "evs = pre @ ev # Log (TestBatchDone (int k)) # Confirm # post"
           "upload_end k ev" "clean k pre" "clean k post"
           "(post = [] \<and> kk = Block) \<or> (post = [Log StoppedAfterTest] \<and> kk = Break)
              \<or> (\<exists>post'. post = Log Continuing # post' \<and> kk \<noteq> Block)"
        unfolding confirmed_shape_def by blast
      from c2 d(3) have cp: "clean k (out s2 @ pre)" by simp
      from d(5) show ?goal
      proof (elim disjE conjE exE)
        assume "post = []" "kk = Block"
        with fin evs(1) d(1) have "st = Blocks"
          "out s' = (out s2 @ pre) @ ev # Log (TestBatchDone (int k)) # Confirm # []" by simp_all
        with d(2) cp show ?goal by (intro disjI2 exI [of _ "out s2 @ pre"] exI [of _ ev] exI [of _ "[]"]) simp
      next
        assume "post = [Log StoppedAfterTest]" "kk = Break"
        with fin evs(1) d(1) have "st = Returns"
          "out s' = (out s2 @ pre) @ ev # Log (TestBatchDone (int k)) # Confirm
                     # [Log StoppedAfterTest, CloseSftp, CloseTransport, Done True]" by simp_all
        with d(2) cp show ?goal
          by (intro disjI2 exI [of _ "out s2 @ pre"] exI [of _ ev]
                exI [of _ "[Log StoppedAfterTest, CloseSftp, CloseTransport, Done True]"]) simp
      next
        fix post'
        assume p: "post = Log Continuing # post'" and nb: "kk \<noteq> Block"
        with fin evs(1) d(1) have "st = Returns"
          "out s' = (out s2 @ pre) @ ev # Log (TestBatchDone (int k)) # Confirm
                     # (Log Continuing # post' @ [CloseSftp, CloseTransport, Done True])" by simp_all
        moreover from d(4) p have "clean k (Log Continuing # post' @ [CloseSftp, CloseTransport, Done True])"
          by simp
        ultimately show ?goal using d(2) cp
          by (intro disjI2 exI [of _ "out s2 @ pre"] exI [of _ ev]
                exI [of _ "Log Continuing # post' @ [CloseSftp, CloseTransport, Done True]"]) simp
      qed
    qed
  qed
  qed
next
  have tk: "int k \<noteq> 0" using assms(3) by simp
  assume "reply_q (absorb s0) = []"
  from checkpoint_block_eq [OF tk refl this]
  show "checkpoint (int k) k s0 =
            (Block, emit Confirm (emit (Log (TestBatchDone (int k))) (absorb s0)))" .
next
  fix d q
  have tk: "int k \<noteq> 0" using assms(3) by simp
  assume "reply_q (absorb s0) = d # q"
  from checkpoint_answer_eq [OF tk refl this]
  show "checkpoint (int k) k s0 =
            (if d then Next else Break,
             emit (Log (if d then Continuing else StoppedAfterTest))
               (emit Confirm (emit (Log (TestBatchDone (int k))) ((absorb s0)\<lparr>reply_q := q\<rparr>))))" .
qed

theorem c2_checkpoint_witness:
  "(\<exists>pre ev post. out (snd (run (test_cfg 2) five_files demo_env (init [[], [], [Answer False]]))) =
        pre @ ev # Log (TestBatchDone 2) # Confirm # post
      \<and> upload_end 2 ev \<and> clean 2 pre \<and> clean 2 post
      \<and> (post = [Log StoppedAfterTest, CloseSftp, CloseTransport, Done True]
          \<or> (\<exists>post'. post = Log Continuing # post')))
   \<and> fst (checkpoint 2 2 (init [[Answer False]])) = Break
   \<and> fst (checkpoint 2 2 (init [[Answer True]])) = Next
   \<and> fst (checkpoint 2 2 (init [])) = Block"
proof -
  let ?r = "run (test_cfg 2) five_files demo_env (init [[], [], [Answer False]])"
  have h1: "use_test (test_cfg 2)" and h2: "test_n (test_cfg 2) = Some (int 2)"
    by (simp_all add: test_cfg_def)
  have h3: "(1::nat) \<le> 2" and h4: "2 \<le> length five_files" by (simp_all add: five_files_def)
  have h5: "?r = (fst ?r, snd ?r)" by simp
  have cf: "Confirm \<in> set (out (snd ?r))" by code_simp
  have rt: "fst ?r = Returns" by code_simp
  have q1: "reply_q (absorb (init [[Answer False]])) = False # []" by (simp add: absorb_def reply_put_def)
  have q2: "reply_q (absorb (init [[Answer True]])) = True # []" by (simp add: absorb_def reply_put_def)
  have q3: "reply_q (absorb (init [])) = []" by (simp add: absorb_def)
  from c2_checkpoint [OF h1 h2 h3 h4 h5, of "init [[Answer False]]"] cf rt
  have a: "\<exists>pre ev post. out (snd ?r) = pre @ ev # Log (TestBatchDone 2) # Confirm # post
      \<and> upload_end 2 ev \<and> clean 2 pre \<and> clean 2 post
      \<and> (post = [Log StoppedAfterTest, CloseSftp, CloseTransport, Done True]
          \<or> (\<exists>post'. post = Log Continuing # post'))"
    by (auto simp: clean_def)
  from c2_checkpoint [OF h1 h2 h3 h4 h5, of "init [[Answer False]]"] q1
  have b: "fst (checkpoint 2 2 (init [[Answer False]])) = Break" by auto
  from c2_checkpoint [OF h1 h2 h3 h4 h5, of "init [[Answer True]]"] q2
  have c: "fst (checkpoint 2 2 (init [[Answer True]])) = Next" by auto
  from c2_checkpoint [OF h1 h2 h3 h4 h5, of "init []"] q3
  have d: "fst (checkpoint 2 2 (init [])) = Block" by auto
  from a b c d show ?thesis by blast
qed

text \<open>
  The claim as stated fails when the loop is left before the upload stage of file \<open>k\<close> is
  through. Two files, test count \<open>1\<close>, the session dead before the first upload and the
  reconnect refused: the loop breaks at once and no confirmation request is sent.
\<close>

theorem c2_counterexample:
  "(1::nat) \<le> 1 \<and> 1 \<le> length [''a.txt'', ''b.txt'']
   \<and> out (snd (run (test_cfg 1) [''a.txt'', ''b.txt''] dead_env (init []))) =
       [Log (Connecting ''h'' ''22''), ConnectCall, NormalizeCall, Log Connected,
        ExistsCall ''a.txt'', IsActiveCall, Log ConnectionLost, ConnectCall,
        Log ReconnectFailed, CloseSftp, CloseTransport, Done True]
   \<and> Confirm \<notin> set (out (snd (run (test_cfg 1) [''a.txt'', ''b.txt''] dead_env (init []))))"
  by code_simp

text \<open>
  C9. \<^verbatim>\<open>UploadWorker.stop\<close> is idempotent, and a second \<^verbatim>\<open>App._stop\<close> leaves the flag and the
  events as the first did. For the whole run: take any script of requests and put one more
  \<open>Stop\<close> anywhere after a \<open>Stop\<close> it holds already (later in the same batch or in any later
  batch; a script can be padded with empty batches). The run then returns or waits as
  before, sends the same events and ends with the same stop flag. What the second request
  leaves behind is one more \<open>False\<close> on the reply queue, the channel from the GUI, which the
  worker reads at most once and never past its head.
\<close>

theorem c9_cancel_idempotent:
  "stop (stop s) = stop s
   \<and> stop_flag (apply_action (apply_action s Stop) Stop) = stop_flag (apply_action s Stop)
   \<and> out (apply_action (apply_action s Stop) Stop) = out (apply_action s Stop)
   \<and> (Stop \<in> set (concat pre @ xs) \<longrightarrow>
        fst (run c files e (init (pre @ (xs @ Stop # ys) # post)))
          = fst (run c files e (init (pre @ (xs @ ys) # post)))
      \<and> out (snd (run c files e (init (pre @ (xs @ Stop # ys) # post))))
          = out (snd (run c files e (init (pre @ (xs @ ys) # post))))
      \<and> stop_flag (snd (run c files e (init (pre @ (xs @ Stop # ys) # post))))
          = stop_flag (snd (run c files e (init (pre @ (xs @ ys) # post)))))"
proof (intro conjI impI)
  show "stop (stop s) = stop s" by (simp add: stop_def)
  show "stop_flag (apply_action (apply_action s Stop) Stop) = stop_flag (apply_action s Stop)"
    by (simp add: stop_def reply_put_def)
  show "out (apply_action (apply_action s Stop) Stop) = out (apply_action s Stop)"
    by (simp add: stop_def reply_put_def)
next
  assume a: "Stop \<in> set (concat pre @ xs)"
  let ?p = "pre @ (xs @ ys) # post" and ?p' = "pre @ (xs @ Stop # ys) # post"
  from a have "pend_rel False ?p ?p'" unfolding pend_rel_def by blast
  then have "sim True (init ?p) (init ?p')" by (simp add: sim_def)
  from run_sim [OF this, of c files e]
  have r: "fst (run c files e (init ?p')) = fst (run c files e (init ?p))"
          "sim False (snd (run c files e (init ?p))) (snd (run c files e (init ?p')))"
    by (simp_all add: stage_sim_def)
  from r(1) show "fst (run c files e (init ?p')) = fst (run c files e (init ?p))" .
  from r(2) show "out (snd (run c files e (init ?p'))) = out (snd (run c files e (init ?p)))"
    by (rule sim_out)
  from r(2) show "stop_flag (snd (run c files e (init ?p'))) = stop_flag (snd (run c files e (init ?p)))"
    by (rule sim_flag)
qed

theorem c9_cancel_idempotent_witness:
  "fst (run (test_cfg 1) [''a.txt'', ''b.txt''] demo_env (init [[], [Stop, Stop]])) = Returns
   \<and> out (snd (run (test_cfg 1) [''a.txt'', ''b.txt''] demo_env (init [[], [Stop, Stop]]))) =
       [Log (Connecting ''h'' ''22''), ConnectCall, NormalizeCall, Log Connected,
        ExistsCall ''a.txt'', IsActiveCall, Log (Uploading 1 2 ''a.txt'' ''up/a.txt''),
        PutCall ''a.txt'' ''up/a.txt'', Log (UploadDone 1 2), Log (TestBatchDone 1), Confirm,
        Log StoppedAfterTest, CloseSftp, CloseTransport, Done True]
   \<and> stop_flag (snd (run (test_cfg 1) [''a.txt'', ''b.txt''] demo_env (init [[], [Stop, Stop]])))"
proof -
  let ?one = "run (test_cfg 1) [''a.txt'', ''b.txt''] demo_env (init ([[]] @ ([Stop] @ []) # []))"
  have h: "Stop \<in> set (concat [[]] @ [Stop])" by simp
  have a: "fst ?one = Returns" by code_simp
  have b: "out (snd ?one) =
       [Log (Connecting ''h'' ''22''), ConnectCall, NormalizeCall, Log Connected,
        ExistsCall ''a.txt'', IsActiveCall, Log (Uploading 1 2 ''a.txt'' ''up/a.txt''),
        PutCall ''a.txt'' ''up/a.txt'', Log (UploadDone 1 2), Log (TestBatchDone 1), Confirm,
        Log StoppedAfterTest, CloseSftp, CloseTransport, Done True]" by code_simp
  have c: "stop_flag (snd ?one)" by code_simp
  from c9_cancel_idempotent [where pre = "[[]]" and xs = "[Stop]" and ys = "[]" and post = "[]"
      and c = "test_cfg 1" and files = "[''a.txt'', ''b.txt'']" and e = demo_env] h a b c
  show ?thesis by simp
qed

end
